theory Spec2Isabelle
  imports Complex_Main "HOL-Library.Log_Nat"
begin

section \<open>JavaScript values used by both components\<close>

text \<open>
  An optional property \<open>p?: T\<close> of a wire payload is a \<open>T option\<close> (\<open>None\<close> is
  \<open>undefined\<close>).
\<close>

definition truthy :: "string option \<Rightarrow> bool" where
  \<comment> \<open>a string-valued property in a boolean position: \<open>undefined\<close> and \<open>""\<close> are falsy\<close>
  "truthy s = (case s of None \<Rightarrow> False | Some v \<Rightarrow> v \<noteq> [])"

definition or_else :: "string option \<Rightarrow> string \<Rightarrow> string" where
  \<comment> \<open>\<open>s || dflt\<close> on a string-valued property\<close>
  "or_else s dflt = (case s of None \<Rightarrow> dflt | Some v \<Rightarrow> if v = [] then dflt else v)"

fun findIndex :: "('a \<Rightarrow> bool) \<Rightarrow> 'a list \<Rightarrow> int" where
  \<comment> \<open>\<open>Array.prototype.findIndex\<close>: the first index whose element satisfies the predicate, else \<open>-1\<close>\<close>
  "findIndex P [] = - 1"
| "findIndex P (x # xs) =
     (if P x then 0 else (let i = findIndex P xs in if i < 0 then - 1 else i + 1))"

subsection \<open>Numbers\<close>

text \<open>
  A JavaScript \<open>number\<close> is an IEEE 754 double: a finite value, one of the two
  infinities, or NaN. A finite double is modelled by the rational it denotes. Every
  arithmetic operation computes the exact result and rounds it to the nearest double, ties
  to the even significand; a result of magnitude \<open>2^1024\<close> or more after rounding is an
  infinity. The sign of zero is not modelled: the components never divide by a value that
  can be zero, and nothing else they do tells \<open>-0\<close> from \<open>0\<close>.
\<close>

definition binade :: "rat \<Rightarrow> int" where
  \<comment> \<open>for \<open>x > 0\<close>, the exponent \<open>e\<close> with \<open>2^e \<le> x < 2^(e+1)\<close>\<close>
  "binade x =
     (let (p, q) = quotient_of x; b = bitlen p - bitlen q
      in if 2 powi b \<le> x then b else b - 1)"

definition exponent_of :: "rat \<Rightarrow> int" where
  \<comment> \<open>the exponent of the double nearest to \<open>x > 0\<close>: below \<open>2^-1022\<close> doubles are subnormal\<close>
  "exponent_of x = max (binade x) (- 1022)"

definition round_half_even :: "rat \<Rightarrow> int" where
  "round_half_even q =
     (let f = \<lfloor>q\<rfloor>; r = q - of_int f
      in if r < 1 / 2 then f else if 1 / 2 < r then f + 1 else if even f then f else f + 1)"

definition round53 :: "rat \<Rightarrow> rat" where
  \<comment> \<open>the nearest value with a 53-bit significand (exponent at least \<open>-1022\<close>, unbounded above)\<close>
  "round53 x =
     (if x = 0 then 0
      else
        (let a = \<bar>x\<bar>; ulp = 2 powi (exponent_of a - 52)
         in sgn x * of_int (round_half_even (a / ulp)) * ulp))"

datatype js_number = Fin rat | PosInf | NegInf | NaN

definition to_double :: "rat \<Rightarrow> js_number" where
  \<comment> \<open>the double that an operation with exact result \<open>x\<close> returns\<close>
  "to_double x =
     (let v = round53 x
      in if 2 powi 1024 \<le> v then PosInf else if v \<le> - (2 powi 1024) then NegInf else Fin v)"

definition js_sign :: "js_number \<Rightarrow> int" where
  "js_sign x =
     (case x of
        Fin a \<Rightarrow> (if 0 < a then 1 else if a < 0 then - 1 else 0)
      | PosInf \<Rightarrow> 1
      | NegInf \<Rightarrow> - 1
      | NaN \<Rightarrow> 0)"

definition js_infinity :: "int \<Rightarrow> js_number" where
  \<comment> \<open>the infinity of a sign; a zero sign here comes from \<open>Infinity * 0\<close>\<close>
  "js_infinity sg = (if 0 < sg then PosInf else if sg < 0 then NegInf else NaN)"

fun js_add :: "js_number \<Rightarrow> js_number \<Rightarrow> js_number" where
  "js_add NaN y = NaN"
| "js_add x NaN = NaN"
| "js_add (Fin a) (Fin b) = to_double (a + b)"
| "js_add PosInf NegInf = NaN"
| "js_add NegInf PosInf = NaN"
| "js_add PosInf y = PosInf"
| "js_add NegInf y = NegInf"
| "js_add (Fin a) y = y"

fun js_mul :: "js_number \<Rightarrow> js_number \<Rightarrow> js_number" where
  "js_mul NaN y = NaN"
| "js_mul x NaN = NaN"
| "js_mul (Fin a) (Fin b) = to_double (a * b)"
| "js_mul x y = js_infinity (js_sign x * js_sign y)"

fun js_div :: "js_number \<Rightarrow> js_number \<Rightarrow> js_number" where
  \<comment> \<open>a zero divisor is taken as \<open>+0\<close>; the components divide by array lengths that are
      at least 1\<close>
  "js_div NaN y = NaN"
| "js_div x NaN = NaN"
| "js_div (Fin a) (Fin b) = (if b = 0 then js_infinity (js_sign (Fin a)) else to_double (a / b))"
| "js_div (Fin a) y = Fin 0"
| "js_div x (Fin b) = js_infinity (js_sign x * (if b < 0 then - 1 else 1))"
| "js_div x y = NaN"

instantiation js_number :: ord
begin

definition less_eq_js_number :: "js_number \<Rightarrow> js_number \<Rightarrow> bool" where
  \<comment> \<open>the operator \<open><=\<close>: false as soon as an operand is NaN\<close>
  "less_eq_js_number x y =
     (case (x, y) of
        (NaN, _) \<Rightarrow> False
      | (_, NaN) \<Rightarrow> False
      | (Fin a, Fin b) \<Rightarrow> a \<le> b
      | (NegInf, _) \<Rightarrow> True
      | (_, PosInf) \<Rightarrow> True
      | _ \<Rightarrow> False)"

definition less_js_number :: "js_number \<Rightarrow> js_number \<Rightarrow> bool" where
  \<comment> \<open>the operator \<open><\<close>\<close>
  "less_js_number x y =
     (case (x, y) of
        (NaN, _) \<Rightarrow> False
      | (_, NaN) \<Rightarrow> False
      | (Fin a, Fin b) \<Rightarrow> a < b
      | (PosInf, _) \<Rightarrow> False
      | (_, NegInf) \<Rightarrow> False
      | _ \<Rightarrow> True)"

instance ..

end

definition Math_round :: "js_number \<Rightarrow> js_number" where
  \<comment> \<open>\<open>Math.round\<close>: the nearest integer, a tie going up; exact, no rounding of its own\<close>
  "Math_round x = (case x of Fin a \<Rightarrow> Fin (of_int \<lfloor>a + 1 / 2\<rfloor>) | _ \<Rightarrow> x)"

definition js_length :: "'a list \<Rightarrow> js_number" where
  \<comment> \<open>\<open>xs.length\<close> as a number: an array length is an integer below \<open>2^32\<close>, hence exact\<close>
  "js_length xs = Fin (of_nat (length xs))"

definition or_zero :: "js_number option \<Rightarrow> js_number" where
  \<comment> \<open>\<open>n || 0\<close> on a number-valued property: \<open>undefined\<close>, \<open>0\<close> and NaN are falsy\<close>
  "or_zero n = (case n of None \<Rightarrow> Fin 0 | Some v \<Rightarrow> if v = Fin 0 \<or> v = NaN then Fin 0 else v)"

definition nullish_zero :: "js_number option \<Rightarrow> js_number" where
  \<comment> \<open>\<open>n ?? 0\<close> on a number-valued property\<close>
  "nullish_zero n = (case n of None \<Rightarrow> Fin 0 | Some v \<Rightarrow> v)"

section \<open>The analysis progress component\<close>

subsection \<open>Data\<close>

record Stage =
  name :: string
  label :: string
  status :: string
  message :: string
  duration_ms :: js_number

text \<open>
  The declared type of \<open>status\<close> is the union \<open>"pending" | "running" | "done" | "error"\<close>,
  but the component stores whatever non-empty string the wire carries (an unchecked cast),
  so the field is a string here and the code's comparisons with \<open>"done"\<close>, \<open>"running"\<close>
  and \<open>"pending"\<close> are string comparisons.
\<close>

record CompleteSummary =
  project_id :: string
  sections :: js_number
  stages_ok :: js_number
  stages_failed :: js_number
  run_duration_ms :: js_number

record ProgressInfo =
  completed :: js_number
  total_count :: js_number
  percent :: js_number

record AnalysisEventData =
  ev_message :: "string option"
  ev_name :: "string option"
  ev_status :: "string option"
  ev_duration_ms :: "js_number option"
  ev_completed :: "js_number option"
  ev_total :: "js_number option"
  ev_percent :: "js_number option"
  ev_project_id :: "string option"
  ev_sections :: "js_number option"
  ev_stages_ok :: "js_number option"
  ev_stages_failed :: "js_number option"
  ev_label :: "string option"
  ev_error :: "string option"

datatype callback = OnComplete | OnError | OnPaused

text \<open>
  The component's state: its five \<open>useState\<close> cells, its refs, and what it does to the
  outside. \<open>timerRef\<close> holds the id of the interval created last; \<open>liveTimers\<close> are the
  intervals that are scheduled and not yet cleared; \<open>calls\<close> logs the parent's callbacks
  in the order they are invoked; \<open>pauseInFlight\<close> counts pause requests that were sent
  and have not settled. \<open>onPausedGiven\<close> says whether the optional \<open>onPaused\<close> prop was
  passed. \<open>streamError\<close> mirrors \<open>state.error\<close> of the stream hook.
\<close>

record progress_state =
  stages :: "Stage list"
  summary :: "CompleteSummary option"
  progress :: "ProgressInfo option"
  elapsedMs :: int
  isPausing :: bool
  startTime :: int
  timerRef :: "nat option"
  liveTimers :: "nat list"
  nextTimer :: nat
  startedRef :: bool
  pauseInFlight :: nat
  calls :: "callback list"
  onPausedGiven :: bool
  streamError :: bool

definition mounted :: "bool \<Rightarrow> progress_state" where
  \<comment> \<open>the state of a freshly mounted component, before its effect runs\<close>
  "mounted given =
     \<lparr>stages = [], summary = None, progress = None, elapsedMs = 0, isPausing = False,
      startTime = 0, timerRef = None, liveTimers = [], nextTimer = 1, startedRef = False,
      pauseInFlight = 0, calls = [], onPausedGiven = given, streamError = False\<rparr>"

subsection \<open>Timer and callbacks\<close>

definition clearTimer :: "progress_state \<Rightarrow> progress_state" where
  \<comment> \<open>\<open>if (timerRef.current) clearInterval(timerRef.current)\<close>; the ref keeps the stale id\<close>
  "clearTimer st =
     (case timerRef st of
        None \<Rightarrow> st
      | Some t \<Rightarrow> st\<lparr>liveTimers := removeAll t (liveTimers st)\<rparr>)"

definition setTimer :: "progress_state \<Rightarrow> progress_state" where
  \<comment> \<open>\<open>timerRef.current = setInterval(...)\<close>: a fresh interval, the old one is not cleared\<close>
  "setTimer st =
     st\<lparr>timerRef := Some (nextTimer st),
        liveTimers := nextTimer st # liveTimers st,
        nextTimer := Suc (nextTimer st)\<rparr>"

definition invoke :: "callback \<Rightarrow> progress_state \<Rightarrow> progress_state" where
  "invoke c st = st\<lparr>calls := calls st @ [c]\<rparr>"

definition invoke_onPaused :: "progress_state \<Rightarrow> progress_state" where
  \<comment> \<open>\<open>onPaused?.()\<close>\<close>
  "invoke_onPaused st = (if onPausedGiven st then invoke OnPaused st else st)"

definition ticker_stopped :: "progress_state \<Rightarrow> bool" where
  "ticker_stopped st = (liveTimers st = [])"

definition paused_calls :: "progress_state \<Rightarrow> nat" where
  "paused_calls st = length (filter (\<lambda>c. c = OnPaused) (calls st))"

subsection \<open>Stream handlers\<close>

definition extractResult :: "AnalysisEventData \<Rightarrow> CompleteSummary option" where
  "extractResult d =
     (case (ev_project_id d, ev_sections d) of
        (Some p, Some s) \<Rightarrow>
          if p \<noteq> [] then
            Some \<lparr>project_id = p, sections = s,
                  stages_ok = nullish_zero (ev_stages_ok d),
                  stages_failed = nullish_zero (ev_stages_failed d),
                  run_duration_ms = nullish_zero (ev_duration_ms d)\<rparr>
          else None
      | _ \<Rightarrow> None)"

definition stage_of :: "AnalysisEventData \<Rightarrow> Stage option" where
  \<comment> \<open>the record built under \<open>if (data.name)\<close>\<close>
  "stage_of d =
     (case ev_name d of
        None \<Rightarrow> None
      | Some n \<Rightarrow>
          if n = [] then None
          else Some \<lparr>name = n,
                     label = (case ev_label d of None \<Rightarrow> n | Some l \<Rightarrow> l),
                     status = or_else (ev_status d) ''running'',
                     message = or_else (ev_message d) [],
                     duration_ms = or_zero (ev_duration_ms d)\<rparr>)"

definition upsert :: "Stage list \<Rightarrow> Stage \<Rightarrow> Stage list" where
  \<comment> \<open>the updater passed to \<open>setStages\<close>\<close>
  "upsert prev stage =
     (let idx = findIndex (\<lambda>s. name s = name stage) prev
      in if idx \<ge> 0 then prev[nat idx := stage] else prev @ [stage])"

definition snapshot_of :: "AnalysisEventData \<Rightarrow> ProgressInfo option" where
  \<comment> \<open>all three of \<open>completed\<close>, \<open>total\<close>, \<open>percent\<close> are defined\<close>
  "snapshot_of d =
     (case (ev_completed d, ev_total d, ev_percent d) of
        (Some c, Some t, Some p) \<Rightarrow> Some \<lparr>completed = c, total_count = t, percent = p\<rparr>
      | _ \<Rightarrow> None)"

definition onUpdate :: "string \<Rightarrow> AnalysisEventData \<Rightarrow> progress_state \<Rightarrow> progress_state" where
  "onUpdate event d st =
     (if event = ''paused'' then invoke_onPaused (clearTimer st)
      else
        (case stage_of d of
           None \<Rightarrow> st
         | Some stage \<Rightarrow>
             (let st1 = st\<lparr>stages := upsert (stages st) stage\<rparr>
              in case snapshot_of d of
                   None \<Rightarrow> st1
                 | Some p \<Rightarrow> st1\<lparr>progress := Some p\<rparr>)))"

definition onComplete :: "CompleteSummary \<Rightarrow> progress_state \<Rightarrow> progress_state" where
  "onComplete result st = invoke OnComplete (clearTimer (st\<lparr>summary := Some result\<rparr>))"

definition onError :: "progress_state \<Rightarrow> progress_state" where
  "onError st = invoke OnError (clearTimer st)"

subsection \<open>Starting a run\<close>

definition startAnalysis :: "int \<Rightarrow> progress_state \<Rightarrow> progress_state" where
  \<comment> \<open>\<open>now\<close> is the value of \<open>Date.now()\<close>; \<open>reset()\<close> of the hook clears its error\<close>
  "startAnalysis now st =
     setTimer (st\<lparr>stages := [], summary := None, progress := None, elapsedMs := 0,
                  startTime := now\<rparr>) \<lparr>streamError := False\<rparr>"

definition mountEffect :: "int \<Rightarrow> progress_state \<Rightarrow> progress_state" where
  \<comment> \<open>the effect guarded by \<open>startedRef\<close>\<close>
  "mountEffect now st =
     (if startedRef st then st else startAnalysis now (st\<lparr>startedRef := True\<rparr>))"

definition tick :: "nat \<Rightarrow> int \<Rightarrow> progress_state \<Rightarrow> progress_state" where
  \<comment> \<open>interval \<open>t\<close> fires at time \<open>now\<close>; a cleared interval never fires\<close>
  "tick t now st =
     (if t \<in> set (liveTimers st) then st\<lparr>elapsedMs := now - startTime st\<rparr> else st)"

subsection \<open>The pause side channel\<close>

text \<open>
  \<open>handlePause\<close> is an async function with one suspension point, the \<open>await\<close> of the
  request. Its first half runs at the click, its second half when the request settles:
  with a body whose \<open>success\<close> is truthy, with a body whose \<open>success\<close> is falsy, or with
  an exception (network failure, or a body that is not JSON).
\<close>

datatype pause_outcome = Accepted | Declined | Failed

definition handlePause_click :: "progress_state \<Rightarrow> progress_state" where
  "handlePause_click st =
     (if isPausing st then st
      else st\<lparr>isPausing := True, pauseInFlight := Suc (pauseInFlight st)\<rparr>)"

definition handlePause_settle :: "pause_outcome \<Rightarrow> progress_state \<Rightarrow> progress_state" where
  "handlePause_settle out st =
     (case out of
        Accepted \<Rightarrow> invoke_onPaused (clearTimer st)
      | Declined \<Rightarrow> st\<lparr>isPausing := False\<rparr>
      | Failed \<Rightarrow> st\<lparr>isPausing := False\<rparr>)"

subsection \<open>Derived values\<close>

definition overallPercent :: "progress_state \<Rightarrow> js_number" where
  "overallPercent st =
     (case progress st of
        Some p \<Rightarrow> percent p
      | None \<Rightarrow>
          if length (stages st) > 0
          then Math_round
                 (js_mul
                    (js_div (js_length (filter (\<lambda>s. status s = ''done'') (stages st)))
                            (js_length (stages st)))
                    (Fin 100))
          else Fin 0)"

definition completedStages :: "Stage list \<Rightarrow> Stage list" where
  "completedStages ss = filter (\<lambda>s. status s = ''done'') ss"

definition avgMs :: "Stage list \<Rightarrow> js_number" where
  "avgMs ss =
     (if length (completedStages ss) \<ge> 2
      then js_div (foldl (\<lambda>sum s. js_add sum (duration_ms s)) (Fin 0) (completedStages ss))
                  (js_length (completedStages ss))
      else Fin 0)"

definition pendingCount :: "Stage list \<Rightarrow> nat" where
  "pendingCount ss = length (filter (\<lambda>s. status s = ''running'' \<or> status s = ''pending'') ss)"

definition estimatedRemainingMs :: "Stage list \<Rightarrow> js_number" where
  \<comment> \<open>\<open>pendingCount\<close> is an array length, exact as a number\<close>
  "estimatedRemainingMs ss =
     (if Fin 0 < avgMs ss \<and> pendingCount ss > 0
      then Math_round (js_mul (avgMs ss) (Fin (of_nat (pendingCount ss)))) else Fin 0)"

definition eta_shown :: "progress_state \<Rightarrow> js_number option" where
  \<comment> \<open>the full rendering shows the estimate under
      \<open>estimatedRemainingMs > 0 && !summary && !state.error\<close>\<close>
  "eta_shown st =
     (if Fin 0 < estimatedRemainingMs (stages st) \<and> summary st = None \<and> \<not> streamError st
      then Some (estimatedRemainingMs (stages st)) else None)"

subsection \<open>Runs of the component\<close>

text \<open>
  What can happen to a mounted component, one action at a time: its effect runs, an
  interval fires, the stream hook calls one of the three handlers, the pause control is
  clicked, a pause request settles. The second half of \<open>handlePause\<close> runs once for each
  request that was sent.
\<close>

datatype progress_action =
    Mount int
  | Tick nat int
  | StreamUpdate string AnalysisEventData
  | StreamComplete CompleteSummary
  | StreamError
  | PauseClick
  | PauseSettled pause_outcome

fun progress_step :: "progress_action \<Rightarrow> progress_state \<Rightarrow> progress_state" where
  "progress_step (Mount now) st = mountEffect now st"
| "progress_step (Tick t now) st = tick t now st"
| "progress_step (StreamUpdate event d) st = onUpdate event d st"
| "progress_step (StreamComplete r) st = onComplete r st"
| "progress_step StreamError st = onError (st\<lparr>streamError := True\<rparr>)"
| "progress_step PauseClick st = handlePause_click st"
| "progress_step (PauseSettled out) st =
     (if pauseInFlight st = 0 then st
      else handlePause_settle out (st\<lparr>pauseInFlight := pauseInFlight st - 1\<rparr>))"

fun progress_run :: "progress_action list \<Rightarrow> progress_state \<Rightarrow> progress_state" where
  "progress_run [] st = st"
| "progress_run (a # as) st = progress_run as (progress_step a st)"

fun apply_updates :: "(string \<times> AnalysisEventData) list \<Rightarrow> progress_state \<Rightarrow> progress_state" where
  \<comment> \<open>the update handler called on a sequence of stream events, in delivery order\<close>
  "apply_updates [] st = st"
| "apply_updates ((event, d) # es) st = apply_updates es (onUpdate event d st)"

subsection \<open>Vocabulary of the specification\<close>

definition is_stage_event :: "string \<times> AnalysisEventData \<Rightarrow> bool" where
  \<comment> \<open>an event that reports a stage: not the paused event, and it carries a name\<close>
  "is_stage_event ev = (fst ev \<noteq> ''paused'' \<and> truthy (ev_name (snd ev)))"

definition reported :: "(string \<times> AnalysisEventData) list \<Rightarrow> Stage list" where
  \<comment> \<open>the records of the stage events of a sequence, in delivery order\<close>
  "reported es = List.map_filter (\<lambda>ev. stage_of (snd ev)) (filter is_stage_event es)"

fun last_for :: "string \<Rightarrow> Stage list \<Rightarrow> Stage option" where
  \<comment> \<open>the last record of the list with the given name\<close>
  "last_for n [] = None"
| "last_for n (s # ss) =
     (case last_for n ss of
        Some r \<Rightarrow> Some r
      | None \<Rightarrow> if name s = n then Some s else None)"

fun first_reported :: "string list \<Rightarrow> string list \<Rightarrow> string list" where
  \<comment> \<open>the names seen so far, extended by the new names of a list in the order they first occur\<close>
  "first_reported seen [] = seen"
| "first_reported seen (n # ns) =
     first_reported (if n \<in> set seen then seen else seen @ [n]) ns"

definition carried_snapshot :: "AnalysisEventData \<Rightarrow> ProgressInfo option" where
  \<comment> \<open>the specification's words: the payload carries an explicit snapshot, that is a
      \<open>completed\<close>, a \<open>total\<close> and a \<open>percent\<close>\<close>
  "carried_snapshot d =
     Option.bind (ev_completed d) (\<lambda>c.
       Option.bind (ev_total d) (\<lambda>t.
         Option.bind (ev_percent d) (\<lambda>p.
           Some \<lparr>completed = c, total_count = t, percent = p\<rparr>)))"

definition snaps :: "(string \<times> AnalysisEventData) list \<Rightarrow> ProgressInfo list" where
  \<comment> \<open>the snapshots carried by the stage events of a sequence, in delivery order\<close>
  "snaps es = List.map_filter (\<lambda>ev. carried_snapshot (snd ev)) (filter is_stage_event es)"

definition supplied_snapshot :: "(string \<times> AnalysisEventData) list \<Rightarrow> ProgressInfo option" where
  \<comment> \<open>the snapshot carried by the latest stage event that carries one\<close>
  "supplied_snapshot es = (case snaps es of [] \<Rightarrow> None | p # ps \<Rightarrow> Some (last (p # ps)))"

definition is_done :: "Stage \<Rightarrow> bool" where
  "is_done s = (status s = ''done'')"

definition doneCount :: "Stage list \<Rightarrow> nat" where
  "doneCount ss = length (filter is_done ss)"

definition spec_pendingCount :: "Stage list \<Rightarrow> nat" where
  "spec_pendingCount ss = length (filter (\<lambda>s. status s \<in> {''running'', ''pending''}) ss)"

text \<open>
  The specification's formulas, first read as exact arithmetic on rationals.
\<close>

definition exact_percent :: "nat \<Rightarrow> nat \<Rightarrow> int" where
  \<comment> \<open>\<open>round(doneCount / totalStageCount * 100)\<close>, exactly\<close>
  "exact_percent dc tc = round (of_nat dc / of_nat tc * (100::rat))"

definition spec_overall_percent :: "ProgressInfo option \<Rightarrow> nat \<Rightarrow> nat \<Rightarrow> js_number" where
  \<comment> \<open>the specification's words: the snapshot's percent when present; else
      \<open>round(doneCount / totalStageCount * 100)\<close>; \<open>0\<close> when no stages exist\<close>
  "spec_overall_percent snap dc tc =
     (case snap of
        Some p \<Rightarrow> percent p
      | None \<Rightarrow> if tc = 0 then Fin 0 else Fin (of_int (exact_percent dc tc)))"

definition exact_duration :: "Stage \<Rightarrow> rat" where
  \<comment> \<open>the duration of a stage as a rational; exact arithmetic says nothing about a
      duration that is not finite\<close>
  "exact_duration s = (case duration_ms s of Fin a \<Rightarrow> a | _ \<Rightarrow> 0)"

definition spec_avgDurationMs :: "Stage list \<Rightarrow> rat" where
  \<comment> \<open>the specification's words: the mean duration over Done stages once at least two
      are Done, and 0 otherwise\<close>
  "spec_avgDurationMs ss =
     (if 2 \<le> doneCount ss
      then sum_list (map exact_duration (filter is_done ss)) / of_nat (doneCount ss)
      else 0)"

definition spec_estimate :: "Stage list \<Rightarrow> int option" where
  \<comment> \<open>the specification's words: \<open>round(avgDurationMs * pendingCount)\<close>, reported only
      when \<open>avgDurationMs > 0\<close> and \<open>pendingCount > 0\<close>, otherwise omitted\<close>
  "spec_estimate ss =
     (if spec_avgDurationMs ss > 0 \<and> spec_pendingCount ss > 0
      then Some (round (spec_avgDurationMs ss * of_nat (spec_pendingCount ss)))
      else None)"

text \<open>
  The same formulas read as the component computes them, every operation a double
  operation.
\<close>

definition double_percent :: "nat \<Rightarrow> nat \<Rightarrow> js_number" where
  \<comment> \<open>\<open>Math.round(doneCount / totalStageCount * 100)\<close> on doubles\<close>
  "double_percent dc tc =
     Math_round (js_mul (js_div (Fin (of_nat dc)) (Fin (of_nat tc))) (Fin 100))"

definition percent_int :: "nat \<Rightarrow> nat \<Rightarrow> int" where
  \<comment> \<open>the integer that \<open>double_percent\<close> returns when \<open>dc \<le> tc\<close>: quotient and product
      are rounded to doubles, \<open>Math.round\<close> is exact\<close>
  "percent_int d n = \<lfloor>round53 (round53 (of_nat d / of_nat n) * 100) + 1 / 2\<rfloor>"

definition double_overall_percent :: "ProgressInfo option \<Rightarrow> nat \<Rightarrow> nat \<Rightarrow> js_number" where
  "double_overall_percent snap dc tc =
     (case snap of
        Some p \<Rightarrow> percent p
      | None \<Rightarrow> if tc = 0 then Fin 0 else double_percent dc tc)"

fun double_sum :: "js_number \<Rightarrow> js_number list \<Rightarrow> js_number" where
  \<comment> \<open>a sum of doubles taken from left to right, each partial sum rounded\<close>
  "double_sum acc [] = acc"
| "double_sum acc (x # xs) = double_sum (js_add acc x) xs"

definition double_avgDurationMs :: "Stage list \<Rightarrow> js_number" where
  \<comment> \<open>the mean duration over Done stages once at least two are Done, and 0 otherwise\<close>
  "double_avgDurationMs ss =
     (if 2 \<le> doneCount ss
      then js_div (double_sum (Fin 0) (map duration_ms (filter is_done ss)))
                  (Fin (of_nat (doneCount ss)))
      else Fin 0)"

definition double_estimate :: "Stage list \<Rightarrow> js_number option" where
  \<comment> \<open>\<open>Math.round(avgDurationMs * pendingCount)\<close> on doubles, reported only when
      \<open>avgDurationMs > 0\<close> and \<open>pendingCount > 0\<close>, otherwise omitted\<close>
  "double_estimate ss =
     (if Fin 0 < double_avgDurationMs ss \<and> spec_pendingCount ss > 0
      then Some (Math_round
                   (js_mul (double_avgDurationMs ss) (Fin (of_nat (spec_pendingCount ss)))))
      else None)"

subsection \<open>Example events\<close>

definition stage_ev :: "string \<Rightarrow> string \<Rightarrow> rat \<Rightarrow> AnalysisEventData" where
  \<comment> \<open>the payload of a stage event with a name, a status and a duration\<close>
  "stage_ev n s dur =
     \<lparr>ev_message = None, ev_name = Some n, ev_status = Some s,
      ev_duration_ms = Some (Fin dur),
      ev_completed = None, ev_total = None, ev_percent = None, ev_project_id = None,
      ev_sections = None, ev_stages_ok = None, ev_stages_failed = None, ev_label = None,
      ev_error = None\<rparr>"

definition example_events :: "(string \<times> AnalysisEventData) list" where
  "example_events =
     [(''stage'', stage_ev ''A'' ''running'' 0),
      (''stage'', stage_ev ''A'' ''done'' 1500),
      (''stage'', stage_ev ''B'' ''running'' 0)]"

definition with_snapshot :: "rat \<Rightarrow> rat \<Rightarrow> rat \<Rightarrow> AnalysisEventData \<Rightarrow> AnalysisEventData" where
  \<comment> \<open>a payload that also carries \<open>completed\<close>, \<open>total\<close> and \<open>percent\<close>\<close>
  "with_snapshot c t p d =
     d\<lparr>ev_completed := Some (Fin c), ev_total := Some (Fin t), ev_percent := Some (Fin p)\<rparr>"

definition snapshot_events :: "(string \<times> AnalysisEventData) list" where
  "snapshot_events =
     [(''stage'', with_snapshot 1 4 25 (stage_ev ''A'' ''done'' 1500)),
      (''stage'', stage_ev ''B'' ''running'' 0)]"

definition eta_events :: "(string \<times> AnalysisEventData) list" where
  "eta_events =
     [(''stage'', stage_ev ''A'' ''done'' 1000),
      (''stage'', stage_ev ''B'' ''done'' 2000),
      (''stage'', stage_ev ''C'' ''running'' 0),
      (''stage'', stage_ev ''D'' ''pending'' 0)]"

definition stage_name :: "nat \<Rightarrow> string" where
  \<comment> \<open>distinct names: \<open>s\<close>, \<open>ss\<close>, \<open>sss\<close>, ...\<close>
  "stage_name i = replicate (Suc i) CHR ''s''"

definition tie_events :: "(string \<times> AnalysisEventData) list" where
  \<comment> \<open>forty stages, the first twenty-three of them done\<close>
  "tie_events =
     map (\<lambda>i. (''stage'', stage_ev (stage_name i) (if i < 23 then ''done'' else ''running'') 0))
       [0..<40]"

definition eta_tie_events :: "(string \<times> AnalysisEventData) list" where
  \<comment> \<open>six done stages that took 9, 8, 8, 8, 8 and 8 ms, and fifteen pending stages\<close>
  "eta_tie_events =
     map (\<lambda>i. (''stage'', stage_ev (stage_name i) ''done'' (if i = 0 then 9 else 8))) [0..<6]
     @ map (\<lambda>i. (''stage'', stage_ev (stage_name i) ''pending'' 0)) [6..<21]"

definition tie_run :: progress_state where
  \<comment> \<open>a run that has seen forty stages, twenty-three of them done\<close>
  "tie_run = apply_updates tie_events (startAnalysis 0 (mounted True))"

definition eta_tie_run :: progress_state where
  \<comment> \<open>a run with six done stages (9, 8, 8, 8, 8, 8 ms) and fifteen pending ones\<close>
  "eta_tie_run = apply_updates eta_tie_events (startAnalysis 0 (mounted True))"

definition one_running :: progress_state where
  \<comment> \<open>a run that has seen one stage, running\<close>
  "one_running =
     apply_updates [(''stage'', stage_ev ''A'' ''running'' 0)] (startAnalysis 0 (mounted True))"

definition one_done :: progress_state where
  \<comment> \<open>a run that has seen one stage, done\<close>
  "one_done =
     apply_updates [(''stage'', stage_ev ''A'' ''done'' 1500)] (startAnalysis 0 (mounted True))"

definition paused_ev :: AnalysisEventData where
  \<comment> \<open>the payload of the paused event\<close>
  "paused_ev =
     \<lparr>ev_message = Some ''Analysis paused'', ev_name = None, ev_status = None,
      ev_duration_ms = None, ev_completed = None, ev_total = None, ev_percent = None,
      ev_project_id = None, ev_sections = None, ev_stages_ok = None, ev_stages_failed = None,
      ev_label = None, ev_error = None\<rparr>"

definition pause_race :: "progress_action list" where
  \<comment> \<open>a run in which the pause request is accepted and the paused event arrives after it\<close>
  "pause_race =
     [Mount 0, StreamUpdate ''stage'' (stage_ev ''A'' ''running'' 0), PauseClick,
      PauseSettled Accepted, StreamUpdate ''paused'' paused_ev]"

definition pause_pending :: progress_state where
  \<comment> \<open>a run whose pause request has been sent and has not settled\<close>
  "pause_pending =
     progress_run [Mount 0, StreamUpdate ''stage'' (stage_ev ''A'' ''running'' 0), PauseClick]
       (mounted True)"

section \<open>The chat session\<close>

subsection \<open>Data\<close>

record Citation =
  file_path :: string
  function_name :: "string option"
  line_start :: js_number
  line_end :: js_number
  cite_confidence :: js_number

record ConfidenceScore =
  score_value :: js_number
  source :: string
  explanation :: string

datatype role = User | Assistant

text \<open>
  \<open>confidence?: ConfidenceScore | null\<close> has three shapes: absent (\<open>None\<close>), \<open>null\<close>
  (\<open>Some None\<close>) and a score (\<open>Some (Some c)\<close>).
\<close>

record ChatMessage =
  role :: role
  content :: string
  citations :: "Citation list option"
  confidence :: "ConfidenceScore option option"
  turn_status :: "string option"
  isError :: "bool option"

record ChatEventData =
  cev_status :: "string option"
  cev_tool :: "string option"
  cev_message :: "string option"
  cev_citations :: "Citation list option"
  cev_confidence :: "ConfidenceScore option option"
  cev_tools_used :: "string list option"
  cev_conversation_id :: "string option"
  cev_model :: "string option"
  cev_error :: "string option"
  cev_request_id :: "string option"

record ChatResult =
  res_message :: string
  res_citations :: "Citation list"
  res_confidence :: "ConfidenceScore option"
  res_tools_used :: "string list"
  res_conversation_id :: string

text \<open>
  The hook's state: the transcript, the conversation id, and the ref that tracks the index
  of the assistant turn in flight. Functions passed to \<open>setMessages\<close> are applied in the
  order of the calls, each to the result of the one before, so \<open>messages\<close> is the
  transcript with every queued update applied. Two things are read as the last render
  left them: \<open>isStreaming\<close> is \<open>state.isStreaming\<close> as captured by the \<open>sendMessage\<close>
  callback of that render, and \<open>conversationIdRef\<close> is assigned during a render. The
  stream hook's own status is \<open>hook_streaming\<close>; \<open>started\<close> are the requests handed to
  \<open>start\<close>, oldest first.
\<close>

record chat_state =
  messages :: "ChatMessage list"
  conversationId :: "string option"
  assistantIdxRef :: int
  conversationIdRef :: "string option"
  isStreaming :: bool
  hook_streaming :: bool
  started :: "(string \<times> string option) list"

definition chat_init :: chat_state where
  "chat_init =
     \<lparr>messages = [], conversationId = None, assistantIdxRef = - 1, conversationIdRef = None,
      isStreaming = False, hook_streaming = False, started = []\<rparr>"

definition render :: "chat_state \<Rightarrow> chat_state" where
  \<comment> \<open>a render of the component that uses the hook: \<open>conversationIdRef.current =
      conversationId\<close>, and the callbacks built by it see the stream hook's current state\<close>
  "render st = st\<lparr>conversationIdRef := conversationId st, isStreaming := hook_streaming st\<rparr>"

subsection \<open>Writing the turn in flight\<close>

text \<open>
  Every handler copies the transcript and assigns \<open>updated[idx]\<close>. Inside the transcript
  this replaces one element. An index at or beyond the length would make JavaScript extend
  the array, leaving holes that are no \<open>ChatMessage\<close>; the model returns \<open>None\<close> there
  instead of inventing turns, and \<open>chat_run_defined\<close> shows that no run gets there.
\<close>

definition assign_at ::
  "ChatMessage list \<Rightarrow> int \<Rightarrow> (ChatMessage \<Rightarrow> ChatMessage) \<Rightarrow> ChatMessage list option" where
  "assign_at prev idx f =
     (if 0 \<le> idx \<and> idx < int (length prev)
      then Some (prev[nat idx := f (prev ! nat idx)]) else None)"

definition setMessages_at ::
  "int \<Rightarrow> (ChatMessage \<Rightarrow> ChatMessage) \<Rightarrow> chat_state \<Rightarrow> chat_state option" where
  "setMessages_at idx f st =
     (case assign_at (messages st) idx f of
        None \<Rightarrow> None
      | Some updated \<Rightarrow> Some (st\<lparr>messages := updated\<rparr>))"

subsection \<open>Stream handlers\<close>

definition chat_extractResult :: "ChatEventData \<Rightarrow> ChatResult option" where
  "chat_extractResult d =
     (case (cev_message d, cev_citations d) of
        (Some m, Some cs) \<Rightarrow>
          Some \<lparr>res_message = m, res_citations = cs,
                res_confidence = (case cev_confidence d of None \<Rightarrow> None | Some c \<Rightarrow> c),
                res_tools_used = (case cev_tools_used d of None \<Rightarrow> [] | Some ts \<Rightarrow> ts),
                res_conversation_id = (case cev_conversation_id d of None \<Rightarrow> [] | Some c \<Rightarrow> c)\<rparr>
      | _ \<Rightarrow> None)"

definition chat_onUpdate :: "string \<Rightarrow> ChatEventData \<Rightarrow> chat_state \<Rightarrow> chat_state option" where
  "chat_onUpdate event d st =
     (let idx = assistantIdxRef st
      in if idx < 0 then Some st
         else
           (case (if event = ''thinking'' \<and> truthy (cev_status d)
                  then setMessages_at idx (\<lambda>m. m\<lparr>turn_status := cev_status d\<rparr>) st
                  else Some st) of
              None \<Rightarrow> None
            | Some st1 \<Rightarrow>
                if event = ''tool_call'' \<and> truthy (cev_message d)
                then setMessages_at idx (\<lambda>m. m\<lparr>turn_status := cev_message d\<rparr>) st1
                else Some st1))"

definition chat_onComplete :: "ChatResult \<Rightarrow> chat_state \<Rightarrow> chat_state option" where
  "chat_onComplete result st =
     (let idx = assistantIdxRef st
      in if idx < 0 then Some st
         else
           (case setMessages_at idx
                   (\<lambda>_. \<lparr>role = Assistant, content = res_message result,
                          citations = Some (res_citations result),
                          confidence = Some (res_confidence result),
                          turn_status = None, isError = None\<rparr>) st of
              None \<Rightarrow> None
            | Some st1 \<Rightarrow>
                if res_conversation_id result \<noteq> []
                then Some (st1\<lparr>conversationId := Some (res_conversation_id result)\<rparr>)
                else Some st1))"

definition error_turn :: "string \<Rightarrow> ChatMessage" where
  "error_turn err =
     \<lparr>role = Assistant, content = ''Error: '' @ err, citations = None, confidence = None,
      turn_status = None, isError = Some True\<rparr>"

definition chat_onError :: "string \<Rightarrow> chat_state \<Rightarrow> chat_state option" where
  "chat_onError err st =
     (let idx = assistantIdxRef st
      in if idx < 0 then Some st
         else setMessages_at idx (\<lambda>_. error_turn err) st)"

subsection \<open>Sending a message\<close>

definition user_turn :: "string \<Rightarrow> ChatMessage" where
  "user_turn c =
     \<lparr>role = User, content = c, citations = None, confidence = None, turn_status = None,
      isError = None\<rparr>"

definition placeholder :: ChatMessage where
  "placeholder =
     \<lparr>role = Assistant, content = [], citations = None, confidence = None,
      turn_status = Some ''Thinking...'', isError = None\<rparr>"

definition hook_start :: "string \<times> string option \<Rightarrow> chat_state \<Rightarrow> chat_state" where
  \<comment> \<open>Modelled from the spec: \<open>reset()\<close> followed by \<open>start(input)\<close> of the stream hook, a
      package that is not among the sources. \<open>start\<close> opens the transport with the input and
      moves the session to \<open>Streaming\<close>.\<close>
  "hook_start req st = st\<lparr>hook_streaming := True, started := started st @ [req]\<rparr>"

definition sendMessage :: "string \<Rightarrow> chat_state \<Rightarrow> chat_state" where
  "sendMessage c st =
     (if isStreaming st then st
      else
        (let next = messages st @ [user_turn c, placeholder]
         in hook_start (c, conversationIdRef st)
              (st\<lparr>messages := next, assistantIdxRef := int (length next) - 1\<rparr>)))"

subsection \<open>Runs of the chat session\<close>

text \<open>
  What can happen to the session, one action at a time. The stream hook decides when a
  handler is called, and React decides when the component renders again; nothing is
  assumed about either here, so the handlers may be called in any order and at any time,
  also when no stream is active, and any number of actions may lie between two renders.
\<close>

datatype chat_action =
    Send string
  | Update string ChatEventData
  | Complete ChatResult
  | Error string
  | Cancel
  | Render

definition hook_ended :: "chat_state \<Rightarrow> chat_state" where
  \<comment> \<open>Modelled from the spec: after the complete event, the error event or \<open>cancel()\<close> the
      stream hook is no longer \<open>Streaming\<close>.\<close>
  "hook_ended st = st\<lparr>hook_streaming := False\<rparr>"

fun chat_step :: "chat_action \<Rightarrow> chat_state \<Rightarrow> chat_state option" where
  "chat_step (Send c) st = Some (sendMessage c st)"
| "chat_step (Update event d) st = chat_onUpdate event d st"
| "chat_step (Complete r) st = map_option hook_ended (chat_onComplete r st)"
| "chat_step (Error e) st = map_option hook_ended (chat_onError e st)"
| "chat_step Cancel st = Some (hook_ended st)"
| "chat_step Render st = Some (render st)"

fun chat_run :: "chat_action list \<Rightarrow> chat_state \<Rightarrow> chat_state option" where
  "chat_run [] st = Some st"
| "chat_run (a # as) st =
     (case chat_step a st of None \<Rightarrow> None | Some st1 \<Rightarrow> chat_run as st1)"

subsection \<open>Example session\<close>

definition thinking_ev :: ChatEventData where
  "thinking_ev =
     \<lparr>cev_status = Some ''Searching the code'', cev_tool = None, cev_message = None,
      cev_citations = None, cev_confidence = None, cev_tools_used = None,
      cev_conversation_id = None, cev_model = None, cev_error = None,
      cev_request_id = Some ''r1''\<rparr>"

definition example_result :: ChatResult where
  "example_result =
     \<lparr>res_message = ''Done.'', res_citations = [], res_confidence = None,
      res_tools_used = [], res_conversation_id = ''c1''\<rparr>"

definition sent_hi :: chat_state where
  \<comment> \<open>the session after its first message has been sent\<close>
  "sent_hi = sendMessage ''hi'' chat_init"

definition sent_hi_rendered :: chat_state where
  \<comment> \<open>the same, after the component has rendered again\<close>
  "sent_hi_rendered = render (sendMessage ''hi'' chat_init)"

section \<open>Properties of double arithmetic\<close>

subsection \<open>Rounding to the nearest double\<close>

lemma rhe_range: "\<lfloor>q\<rfloor> \<le> round_half_even q \<and> round_half_even q \<le> \<lfloor>q\<rfloor> + 1"
  by (simp add: round_half_even_def Let_def)

lemma rhe_near:
  "of_int (round_half_even q) \<le> q + 1 / 2 \<and> q - 1 / 2 \<le> of_int (round_half_even q)"
proof -
  define f where "f = \<lfloor>q\<rfloor>"
  have "of_int f \<le> q" "q < of_int f + 1"
    unfolding f_def by linarith+
  then show ?thesis
    unfolding round_half_even_def Let_def f_def [symmetric] by auto
qed

lemma rhe_of_int: "round_half_even (of_int n) = n"
  by (simp add: round_half_even_def)

lemma rhe_mono: "q \<le> q' \<Longrightarrow> round_half_even q \<le> round_half_even q'"
proof -
  assume le: "q \<le> q'"
  then have f: "\<lfloor>q\<rfloor> \<le> \<lfloor>q'\<rfloor>" by (rule floor_mono)
  show ?thesis
  proof (cases "\<lfloor>q\<rfloor> = \<lfloor>q'\<rfloor>")
    case True
    with le show ?thesis
      by (auto simp: round_half_even_def Let_def)
  next
    case False
    with f have "\<lfloor>q\<rfloor> + 1 \<le> \<lfloor>q'\<rfloor>" by simp
    with rhe_range [of q] rhe_range [of q'] show ?thesis by linarith
  qed
qed

lemma binade_bounds:
  assumes "0 < x"
  shows "2 powi binade x \<le> x \<and> x < 2 powi (binade x + 1)"
proof -
  obtain p q where pq: "quotient_of x = (p, q)" by (cases "quotient_of x")
  then have q: "0 < q" and x: "x = of_int p / of_int q"
    by (simp_all add: quotient_of_denom_pos quotient_of_div)
  from assms x q have p: "0 < p"
    by (simp add: zero_less_divide_iff)
  let ?bp = "bitlen p" and ?bq = "bitlen q"
  from bitlen_bounds [OF p] have bp: "2 ^ nat (?bp - 1) \<le> p" "p < 2 ^ nat ?bp" by simp_all
  from bitlen_bounds [OF q] have bq: "2 ^ nat (?bq - 1) \<le> q" "q < 2 ^ nat ?bq" by simp_all
  have pos: "1 \<le> ?bp" "1 \<le> ?bq"
    using p q bitlen_eq_zero_iff [of p] bitlen_eq_zero_iff [of q] bitlen_nonneg [of p]
      bitlen_nonneg [of q] by linarith+
  have rp: "(2::rat) powi (?bp - 1) \<le> of_int p" "of_int p < (2::rat) powi ?bp"
  proof -
    have "(of_int (2 ^ nat (?bp - 1) :: int) :: rat) \<le> of_int p"
      using bp(1) by (simp only: of_int_le_iff)
    then show "(2::rat) powi (?bp - 1) \<le> of_int p"
      using pos by (simp add: power_int_def)
    have "(of_int p :: rat) < of_int (2 ^ nat ?bp :: int)"
      using bp(2) by (simp only: of_int_less_iff)
    then show "of_int p < (2::rat) powi ?bp"
      using pos by (simp add: power_int_def)
  qed
  have rq: "(2::rat) powi (?bq - 1) \<le> of_int q" "of_int q < (2::rat) powi ?bq"
  proof -
    have "(of_int (2 ^ nat (?bq - 1) :: int) :: rat) \<le> of_int q"
      using bq(1) by (simp only: of_int_le_iff)
    then show "(2::rat) powi (?bq - 1) \<le> of_int q"
      using pos by (simp add: power_int_def)
    have "(of_int q :: rat) < of_int (2 ^ nat ?bq :: int)"
      using bq(2) by (simp only: of_int_less_iff)
    then show "of_int q < (2::rat) powi ?bq"
      using pos by (simp add: power_int_def)
  qed
  let ?b = "?bp - ?bq"
  have qpos: "(0::rat) < of_int q" using q by simp
  have up: "x < 2 powi (?b + 1)"
  proof -
    have "of_int p < (2::rat) powi ?bp" by (rule rp(2))
    also have "\<dots> = 2 powi (?b + 1) * 2 powi (?bq - 1)"
      by (simp add: power_int_add [symmetric])
    also have "\<dots> \<le> 2 powi (?b + 1) * of_int q"
      using rq(1) by (intro mult_left_mono) simp_all
    finally show ?thesis
      unfolding x using qpos by (simp add: pos_divide_less_eq)
  qed
  have low: "2 powi (?b - 1) \<le> x"
  proof -
    have "2 powi (?b - 1) * of_int q \<le> 2 powi (?b - 1) * (2::rat) powi ?bq"
      using rq(2) by (intro mult_left_mono) simp_all
    also have "\<dots> = 2 powi (?bp - 1)"
      by (simp add: power_int_add [symmetric])
    also have "\<dots> \<le> of_int p" by (rule rp(1))
    finally show ?thesis
      unfolding x using qpos by (simp add: pos_le_divide_eq)
  qed
  have "binade x = (if 2 powi ?b \<le> x then ?b else ?b - 1)"
    by (simp add: binade_def pq)
  with up low show ?thesis
    by (auto simp: not_le)
qed

lemma round53_pos:
  "0 < x \<Longrightarrow>
     round53 x = of_int (round_half_even (x / 2 powi (exponent_of x - 52))) * 2 powi (exponent_of x - 52)"
  by (simp add: round53_def Let_def)

lemma round53_zero: "round53 0 = 0"
  by (simp add: round53_def)

lemma scaled_normal:
  assumes "0 < x" and "- 1022 \<le> binade x"
  shows "2 ^ 52 \<le> x / 2 powi (exponent_of x - 52) \<and> x / 2 powi (exponent_of x - 52) < 2 ^ 53"
proof -
  let ?e = "binade x"
  have e: "exponent_of x = ?e" using assms(2) by (simp add: exponent_of_def)
  from binade_bounds [OF assms(1)] have b: "2 powi ?e \<le> x" "x < 2 powi (?e + 1)" by simp_all
  have u: "(0::rat) < 2 powi (?e - 52)" by simp
  have "(2::rat) ^ 52 * 2 powi (?e - 52) = 2 powi ?e"
    using power_int_add [of "2::rat" 52 "?e - 52"] by simp
  moreover have "(2::rat) ^ 53 * 2 powi (?e - 52) = 2 powi (?e + 1)"
    using power_int_add [of "2::rat" 53 "?e - 52"] by (simp add: add.commute)
  ultimately show ?thesis
    unfolding e using b u by (simp add: pos_le_divide_eq pos_divide_less_eq)
qed

lemma scaled_subnormal:
  assumes "0 < x" and "binade x < - 1022"
  shows "0 < x / 2 powi (exponent_of x - 52) \<and> x / 2 powi (exponent_of x - 52) < 2 ^ 52"
proof -
  have e: "exponent_of x = - 1022" using assms(2) by (simp add: exponent_of_def)
  from binade_bounds [OF assms(1)] have "x < 2 powi (binade x + 1)" by simp
  also have "\<dots> \<le> 2 powi (- 1022)"
    using assms(2) by (intro power_int_increasing) simp_all
  finally have b: "x < 2 powi (- 1022)" .
  have u: "(0::rat) < 2 powi (- 1022 - 52)" by simp
  have "(2::rat) ^ 52 * 2 powi (- 1022 - 52) = 2 powi (- 1022)"
    using power_int_add [of "2::rat" 52 "- 1022 - 52"] by simp
  then show ?thesis
    unfolding e using b u assms(1) by (simp add: pos_divide_less_eq)
qed

lemma round53_upper:
  assumes "0 < x"
  shows "round53 x \<le> 2 powi (exponent_of x + 1)"
proof -
  let ?u = "(2::rat) powi (exponent_of x - 52)"
  have q: "x / ?u \<le> 2 ^ 53"
    using scaled_normal [OF assms] scaled_subnormal [OF assms]
    by (cases "- 1022 \<le> binade x") auto
  have "round_half_even (x / ?u) \<le> round_half_even (of_int (2 ^ 53))"
    using q by (intro rhe_mono) simp
  then have "round_half_even (x / ?u) \<le> 2 ^ 53"
    by (simp only: rhe_of_int)
  then have "(of_int (round_half_even (x / ?u)) :: rat) \<le> of_int (2 ^ 53)"
    by (simp only: of_int_le_iff)
  then have "of_int (round_half_even (x / ?u)) * ?u \<le> 2 ^ 53 * ?u"
    by (intro mult_right_mono) simp_all
  also have "\<dots> = 2 powi (exponent_of x + 1)"
    using power_int_add [of "2::rat" 53 "exponent_of x - 52"] by (simp add: add.commute)
  finally show ?thesis
    by (simp only: round53_pos [OF assms])
qed

lemma round53_lower:
  assumes "0 < x" and "- 1022 \<le> binade x"
  shows "2 powi (binade x) \<le> round53 x"
proof -
  have e: "exponent_of x = binade x" using assms(2) by (simp add: exponent_of_def)
  let ?u = "(2::rat) powi (exponent_of x - 52)"
  have q: "2 ^ 52 \<le> x / ?u"
    using scaled_normal [OF assms] by simp
  have "round_half_even (of_int (2 ^ 52)) \<le> round_half_even (x / ?u)"
    using q by (intro rhe_mono) simp
  then have "2 ^ 52 \<le> round_half_even (x / ?u)"
    by (simp only: rhe_of_int)
  then have "(of_int (2 ^ 52) :: rat) \<le> of_int (round_half_even (x / ?u))"
    by (simp only: of_int_le_iff)
  then have "2 ^ 52 * ?u \<le> of_int (round_half_even (x / ?u)) * ?u"
    by (intro mult_right_mono) simp_all
  moreover have "2 ^ 52 * ?u = 2 powi (binade x)"
    unfolding e using power_int_add [of "2::rat" 52 "binade x - 52"] by simp
  ultimately show ?thesis
    by (simp only: round53_pos [OF assms(1)])
qed

lemma round53_nonneg: "0 \<le> x \<Longrightarrow> 0 \<le> round53 x"
proof (cases "x = 0")
  case True
  then show ?thesis by (simp add: round53_zero)
next
  case False
  assume "0 \<le> x"
  with False have x: "0 < x" by simp
  have "0 \<le> x / 2 powi (exponent_of x - 52)" using x by simp
  then have "round_half_even (of_int 0) \<le> round_half_even (x / 2 powi (exponent_of x - 52))"
    by (intro rhe_mono) simp
  then have "0 \<le> round_half_even (x / 2 powi (exponent_of x - 52))"
    by (simp only: rhe_of_int)
  then show ?thesis
    by (simp add: round53_pos [OF x])
qed

lemma binade_mono:
  assumes "0 < x" and "x \<le> y"
  shows "binade x \<le> binade y"
proof (rule ccontr)
  assume "\<not> binade x \<le> binade y"
  then have "binade y + 1 \<le> binade x" by simp
  then have "(2::rat) powi (binade y + 1) \<le> 2 powi binade x"
    by (intro power_int_increasing) simp_all
  moreover from assms have "0 < y" by simp
  ultimately show False
    using binade_bounds [OF assms(1)] binade_bounds [OF \<open>0 < y\<close>] assms(2) by linarith
qed

lemma round53_mono:
  assumes "0 \<le> x" and "x \<le> y"
  shows "round53 x \<le> round53 y"
proof (cases "x = 0")
  case True
  with assms show ?thesis by (simp add: round53_zero round53_nonneg)
next
  case False
  with assms have x: "0 < x" and y: "0 < y" by simp_all
  have le: "exponent_of x \<le> exponent_of y"
    using binade_mono [OF x assms(2)] by (simp add: exponent_of_def)
  show ?thesis
  proof (cases "exponent_of x = exponent_of y")
    case True
    let ?u = "(2::rat) powi (exponent_of y - 52)"
    have "x / ?u \<le> y / ?u"
      using assms(2) by (simp add: divide_right_mono)
    then have "round_half_even (x / ?u) \<le> round_half_even (y / ?u)"
      by (rule rhe_mono)
    then have "(of_int (round_half_even (x / ?u)) :: rat) \<le> of_int (round_half_even (y / ?u))"
      by (simp only: of_int_le_iff)
    then have "of_int (round_half_even (x / ?u)) * ?u \<le> of_int (round_half_even (y / ?u)) * ?u"
      by (intro mult_right_mono) simp_all
    then show ?thesis
      by (simp only: round53_pos [OF x] round53_pos [OF y] True)
  next
    case False
    with le have lt: "exponent_of x + 1 \<le> exponent_of y" by simp
    then have n: "- 1022 \<le> binade y" "exponent_of y = binade y"
      by (auto simp: exponent_of_def max_def split: if_splits)
    have "round53 x \<le> 2 powi (exponent_of x + 1)" by (rule round53_upper [OF x])
    also have "\<dots> \<le> 2 powi (exponent_of y)"
      using lt by (intro power_int_increasing) simp_all
    also have "\<dots> \<le> round53 y"
      unfolding n(2) by (rule round53_lower [OF y n(1)])
    finally show ?thesis .
  qed
qed

lemma round53_error:
  assumes "0 < x" and "- 1022 \<le> binade x"
  shows "\<bar>round53 x - x\<bar> \<le> x * 2 powi (- 53)"
proof -
  have e: "exponent_of x = binade x" using assms(2) by (simp add: exponent_of_def)
  let ?u = "(2::rat) powi (binade x - 52)"
  have u: "0 < ?u" by simp
  let ?q = "x / ?u"
  have x: "x = ?q * ?u" using u by simp
  have "round53 x - x = (of_int (round_half_even ?q) - ?q) * ?u"
    using u by (simp add: round53_pos [OF assms(1)] e algebra_simps)
  then have "\<bar>round53 x - x\<bar> = \<bar>of_int (round_half_even ?q) - ?q\<bar> * ?u"
    using u by (simp add: abs_mult)
  also have "\<dots> \<le> (1 / 2) * ?u"
  proof -
    have "\<bar>of_int (round_half_even ?q) - ?q\<bar> \<le> 1 / 2"
      using rhe_near [of ?q] by linarith
    then show ?thesis
      using u by (intro mult_right_mono) simp_all
  qed
  also have "\<dots> = 2 powi (binade x) * 2 powi (- 53)"
    using power_int_add [of "2::rat" "binade x" "- 53"]
      power_int_add [of "2::rat" "binade x - 53" 1] by simp
  also have "\<dots> \<le> x * 2 powi (- 53)"
    using binade_bounds [OF assms(1)] by (intro mult_right_mono) simp_all
  finally show ?thesis .
qed

lemma rhe_unique:
  assumes "\<bar>q - of_int m\<bar> < 1 / 2"
  shows "round_half_even q = m"
proof -
  have "\<bar>(of_int (round_half_even q) :: rat) - of_int m\<bar> < 1"
    using rhe_near [of q] assms by linarith
  then have "\<bar>(of_int (round_half_even q - m) :: rat)\<bar> < of_int 1"
    by simp
  then have "\<bar>round_half_even q - m\<bar> < 1"
    by (simp only: of_int_abs [symmetric] of_int_less_iff)
  then show ?thesis by simp
qed

lemma binade_unique:
  assumes "2 powi e \<le> x" and "x < 2 powi (e + 1)"
  shows "binade x = e"
proof -
  have "(0::rat) < 2 powi e" by simp
  with assms(1) have x: "0 < x" by linarith
  have "binade x < e + 1"
  proof (rule ccontr)
    assume "\<not> binade x < e + 1"
    then have "(2::rat) powi (e + 1) \<le> 2 powi binade x"
      by (intro power_int_increasing) simp_all
    with binade_bounds [OF x] assms(2) show False by linarith
  qed
  moreover have "e \<le> binade x"
  proof (rule ccontr)
    assume "\<not> e \<le> binade x"
    then have "(2::rat) powi (binade x + 1) \<le> 2 powi e"
      by (intro power_int_increasing) simp_all
    with binade_bounds [OF x] assms(1) show False by linarith
  qed
  ultimately show ?thesis by simp
qed

lemma round53_unique:
  assumes low: "2 powi e \<le> x" and up: "x < 2 powi (e + 1)" and e: "- 1022 \<le> e"
    and near: "\<bar>x - of_int m * 2 powi (e - 52)\<bar> < 2 powi (e - 53)"
  shows "round53 x = of_int m * 2 powi (e - 52)"
proof -
  have "(0::rat) < 2 powi e" by simp
  with low have x: "0 < x" by linarith
  have b: "exponent_of x = e"
    using binade_unique [OF low up] e by (simp add: exponent_of_def)
  let ?u = "(2::rat) powi (e - 52)"
  have u: "0 < ?u" by simp
  have half: "(2::rat) powi (e - 53) = ?u / 2"
    using power_int_add [of "2::rat" "e - 52" "- 1"] by (simp add: field_simps)
  have "x / ?u - of_int m = (x - of_int m * ?u) / ?u"
    using u by (simp add: field_simps)
  then have "\<bar>x / ?u - of_int m\<bar> = \<bar>x - of_int m * ?u\<bar> / ?u"
    using u by (simp add: abs_divide)
  also have "\<dots> < (?u / 2) / ?u"
    using near u unfolding half by (intro divide_strict_right_mono) simp_all
  also have "\<dots> = 1 / 2" using u by simp
  finally have "round_half_even (x / ?u) = m" by (rule rhe_unique)
  then show ?thesis
    by (simp add: round53_pos [OF x] b)
qed

lemma round53_one: "round53 1 = 1"
  using round53_unique [of 0 1 "2 ^ 52"] by simp

lemma round53_hundred: "round53 100 = 100"
  using round53_unique [of 6 100 "25 * 2 ^ 48"] by simp

lemma to_double_bounded:
  assumes "0 \<le> x" and "x \<le> c" and "round53 c < 2 powi 1024"
  shows "to_double x = Fin (round53 x)"
proof -
  have "round53 x \<le> round53 c" using assms(1,2) by (rule round53_mono)
  with assms(3) have "round53 x < 2 powi 1024" by simp
  moreover have "0 \<le> round53 x" using assms(1) by (rule round53_nonneg)
  moreover have "- ((2::rat) powi 1024) < 0" by simp
  ultimately show ?thesis
    by (simp add: to_double_def Let_def not_le)
qed

lemma quotient_double:
  assumes "d \<le> n" and "0 < n"
  shows "js_div (Fin (of_nat d)) (Fin (of_nat n)) = Fin (round53 (of_nat d / of_nat n))"
    and "0 \<le> round53 (of_nat d / of_nat n)"
    and "round53 (of_nat d / of_nat n) \<le> 1"
proof -
  let ?a = "of_nat d / of_nat n :: rat"
  have a: "0 \<le> ?a" "?a \<le> 1" using assms by simp_all
  have "to_double ?a = Fin (round53 ?a)"
    using a by (rule to_double_bounded) (simp add: round53_one)
  then show "js_div (Fin (of_nat d)) (Fin (of_nat n)) = Fin (round53 ?a)"
    using assms(2) by simp
  show "0 \<le> round53 ?a" using a(1) by (rule round53_nonneg)
  show "round53 ?a \<le> 1" using round53_mono [OF a] by (simp add: round53_one)
qed

lemma double_percent_eq:
  assumes "d \<le> n" and "0 < n"
  shows "double_percent d n = Fin (of_int (percent_int d n))"
proof -
  let ?a = "round53 (of_nat d / of_nat n)"
  have b: "0 \<le> ?a * 100" "?a * 100 \<le> 100"
    using quotient_double(2,3) [OF assms] by simp_all
  have "to_double (?a * 100) = Fin (round53 (?a * 100))"
    using b by (rule to_double_bounded) (simp add: round53_hundred)
  then have m: "js_mul (Fin ?a) (Fin 100) = Fin (round53 (?a * 100))"
    by simp
  have q: "js_div (Fin (of_nat d)) (Fin (of_nat n)) = Fin ?a"
    by (rule quotient_double(1) [OF assms])
  show ?thesis
    unfolding double_percent_def q m by (simp add: Math_round_def percent_int_def)
qed

lemma percent_int_mono:
  assumes "(of_nat d :: rat) / of_nat n \<le> of_nat d' / of_nat n'"
  shows "percent_int d n \<le> percent_int d' n'"
proof -
  let ?a = "of_nat d / of_nat n :: rat" and ?a' = "of_nat d' / of_nat n' :: rat"
  have "0 \<le> ?a" by simp
  then have 1: "round53 ?a \<le> round53 ?a'" using assms by (rule round53_mono)
  have "0 \<le> round53 ?a" by (rule round53_nonneg) simp
  then have "0 \<le> round53 ?a * 100" by simp
  moreover have "round53 ?a * 100 \<le> round53 ?a' * 100" using 1 by simp
  ultimately have "round53 (round53 ?a * 100) \<le> round53 (round53 ?a' * 100)"
    by (rule round53_mono)
  then show ?thesis
    unfolding percent_int_def by (intro floor_mono) simp
qed

lemma binade_ge:
  assumes "0 < x" and "2 powi k \<le> x"
  shows "k \<le> binade x"
proof (rule ccontr)
  assume "\<not> k \<le> binade x"
  then have "binade x + 1 \<le> k" by simp
  then have "(2::rat) powi (binade x + 1) \<le> 2 powi k"
    by (intro power_int_increasing) simp_all
  with binade_bounds [OF assms(1)] assms(2) show False by linarith
qed

lemma floor_half: "\<lfloor>1 / 2 :: rat\<rfloor> = 0"
  by (intro floor_unique) simp_all

lemma percent_int_zero: "percent_int 0 n = 0"
  by (simp add: percent_int_def round53_zero floor_half)

lemma abs_chain:
  fixes p q s e :: rat
  assumes "\<bar>p - q\<bar> \<le> e" and "\<bar>q - s\<bar> \<le> e"
  shows "\<bar>p - s\<bar> \<le> 2 * e"
  using assms by linarith

lemma double_percent_error:
  assumes d: "0 < d" "d \<le> n" and n: "n < 2 ^ 32"
  shows "\<bar>round53 (round53 (of_nat d / of_nat n) * 100) - of_nat d / of_nat n * 100\<bar>
           \<le> 200 * 2 powi (- 53)"
proof -
  let ?u = "(2::rat) powi (- 53)"
  let ?a = "of_nat d / of_nat n :: rat"
  let ?a' = "round53 ?a"
  let ?b = "?a' * 100"
  from d have n0: "0 < n" by simp
  have a1: "?a \<le> 1" using d by simp
  have a0: "0 < ?a" using d n0 by simp
  have "(1::rat) / 2 ^ 32 \<le> 1 / of_nat n"
  proof -
    have "n \<le> 2 ^ 32" using n by simp
    then have "(of_nat n :: rat) \<le> of_nat (2 ^ 32)" by (simp only: of_nat_le_iff)
    then have "(of_nat n :: rat) \<le> 2 ^ 32" by simp
    then show ?thesis using n0 by (simp add: frac_le)
  qed
  also have "\<dots> \<le> ?a"
    using d n0 by (simp add: divide_le_cancel)
  finally have low: "(2::rat) powi (- 32) \<le> ?a"
    by (simp add: power_int_minus_divide)
  have norm_a: "- 1022 \<le> binade ?a"
    using binade_ge [OF a0 low] by simp
  have ea: "\<bar>?a' - ?a\<bar> \<le> ?a * ?u"
    using a0 norm_a by (rule round53_error)
  have "?a * ?u \<le> 1 * ?u"
    using a1 by (intro mult_right_mono) simp_all
  with ea have ea': "\<bar>?a' - ?a\<bar> \<le> ?u" by simp
  have a'low: "2 powi (- 32) \<le> ?a'"
  proof -
    have "(2::rat) powi (- 32) \<le> 2 powi (binade ?a)"
      using binade_ge [OF a0 low] by (intro power_int_increasing) simp_all
    also have "\<dots> \<le> ?a'" using a0 norm_a by (rule round53_lower)
    finally show ?thesis .
  qed
  have a'1: "?a' \<le> 1"
    using round53_mono [of ?a 1] a0 a1 by (simp add: round53_one)
  have a'0: "0 < ?a'"
  proof -
    have "(0::rat) < 2 powi (- 32)" by simp
    with a'low show ?thesis by linarith
  qed
  have b0: "0 < ?b" using a'0 by simp
  have blow: "2 powi (- 32) \<le> ?b" using a'low a'0 by linarith
  have norm_b: "- 1022 \<le> binade ?b"
    using binade_ge [OF b0 blow] by simp
  have eb: "\<bar>round53 ?b - ?b\<bar> \<le> ?b * ?u"
    using b0 norm_b by (rule round53_error)
  have "?b * ?u \<le> 100 * ?u"
    using a'1 by (intro mult_right_mono) simp_all
  with eb have eb': "\<bar>round53 ?b - ?b\<bar> \<le> 100 * ?u" by simp
  have "?b - ?a * 100 = 100 * (?a' - ?a)"
    by (simp add: algebra_simps)
  then have "\<bar>?b - ?a * 100\<bar> = 100 * \<bar>?a' - ?a\<bar>"
    by (simp only: abs_mult)
  with ea' have "\<bar>?b - ?a * 100\<bar> \<le> 100 * ?u" by simp
  from abs_chain [OF eb' this] show ?thesis by simp
qed

lemma floor_near_fraction:
  fixes r :: rat
  assumes D: "0 < D" and m: "m < D"
    and near: "\<bar>r - (of_nat k + of_nat m / of_nat D - 1 / 2)\<bar> < 1 / of_nat D"
  shows "if m = 0 then \<lfloor>r + 1 / 2\<rfloor> = int k \<or> \<lfloor>r + 1 / 2\<rfloor> = int k - 1
         else \<lfloor>r + 1 / 2\<rfloor> = int k"
proof -
  have De: "(1::rat) / of_nat D \<le> 1" using D by simp
  from near have lo: "of_nat k + of_nat m / of_nat D - 1 / of_nat D < r + 1 / 2"
    and hi: "r + 1 / 2 < of_nat k + of_nat m / of_nat D + 1 / of_nat D"
    by linarith+
  show ?thesis
  proof (cases "m = 0")
    case True
    with lo hi De have "of_int (int k - 1) < r + 1 / 2" "r + 1 / 2 < of_int (int k) + 1"
      by simp_all
    then have "int k - 1 \<le> \<lfloor>r + 1 / 2\<rfloor>" "\<lfloor>r + 1 / 2\<rfloor> \<le> int k"
      by (simp_all add: le_floor_iff floor_le_iff less_imp_le)
    with True show ?thesis by auto
  next
    case False
    then have "1 \<le> m" by simp
    then have "(1::rat) \<le> of_nat m" by simp
    then have m1: "(1::rat) / of_nat D \<le> of_nat m / of_nat D"
      using D by (simp add: divide_right_mono)
    from m have "Suc m \<le> D" by simp
    then have "(of_nat (Suc m) :: rat) \<le> of_nat D" by (simp only: of_nat_le_iff)
    then have "(of_nat m + 1) / of_nat D \<le> (1::rat)"
      using D by (simp add: pos_divide_le_eq)
    then have m2: "of_nat m / of_nat D + 1 / of_nat D \<le> (1::rat)"
      by (simp add: add_divide_distrib)
    from lo m1 have "of_int (int k) < r + 1 / 2" by simp
    moreover from hi m2 have "r + 1 / 2 < of_int (int k) + 1" by simp
    ultimately have "\<lfloor>r + 1 / 2\<rfloor> = int k"
      by (intro floor_unique) (simp_all add: less_imp_le)
    with False show ?thesis by simp
  qed
qed

lemma percent_int_exact:
  assumes d: "d \<le> n" and n: "0 < n" "n < 2 ^ 32"
  shows "percent_int d n = exact_percent d n
         \<or> (percent_int d n = exact_percent d n - 1
            \<and> of_nat d / of_nat n * (100::rat) + 1 / 2 = of_int (exact_percent d n))"
proof (cases "d = 0")
  case True
  then show ?thesis
    by (simp add: percent_int_zero exact_percent_def round_def floor_half)
next
  case False
  with d have dpos: "0 < d" by simp
  let ?x = "of_nat d / of_nat n * (100::rat)"
  let ?r = "round53 (round53 (of_nat d / of_nat n) * 100)"
  let ?N = "200 * d + n" and ?D = "2 * n"
  let ?k = "?N div ?D" and ?m = "?N mod ?D"
  have D: "0 < ?D" "?m < ?D" using n by simp_all
  have split: "(of_nat ?N :: rat) = of_nat ?k * of_nat ?D + of_nat ?m"
    by (simp only: of_nat_mult [symmetric] of_nat_add [symmetric] of_nat_eq_iff div_mult_mod_eq)
  have x: "?x + 1 / 2 = of_nat ?k + of_nat ?m / of_nat ?D"
  proof -
    have "?x + 1 / 2 = of_nat ?N / of_nat ?D"
      using n by (simp add: field_simps)
    also have "\<dots> = of_nat ?k + of_nat ?m / of_nat ?D"
      unfolding split using n by (simp add: add_divide_distrib)
    finally show ?thesis .
  qed
  have k: "exact_percent d n = int ?k"
  proof -
    have "(0::rat) \<le> of_nat ?m / of_nat ?D" by simp
    moreover have "of_nat ?m / of_nat ?D < (1::rat)"
      using D by (simp add: pos_divide_less_eq del: of_nat_mult of_nat_add)
    ultimately have "\<lfloor>of_nat ?k + of_nat ?m / of_nat ?D :: rat\<rfloor> = int ?k"
      by (intro floor_unique) simp_all
    then show ?thesis
      by (simp only: exact_percent_def round_def x)
  qed
  have "\<bar>?r - ?x\<bar> \<le> 200 * 2 powi (- 53)"
    using dpos d n(2) by (rule double_percent_error)
  also have "\<dots> < 1 / 2 ^ 33"
    by (simp add: power_int_minus_divide)
  also have "\<dots> \<le> 1 / of_nat ?D"
  proof -
    have "?D \<le> 2 ^ 33" using n(2) by simp
    then have "(of_nat ?D :: rat) \<le> of_nat (2 ^ 33)" by (simp only: of_nat_le_iff)
    then have "(of_nat ?D :: rat) \<le> 2 ^ 33" by simp
    then show ?thesis using n(1) by (simp add: frac_le del: of_nat_mult)
  qed
  finally have near: "\<bar>?r - (of_nat ?k + of_nat ?m / of_nat ?D - 1 / 2)\<bar> < 1 / of_nat ?D"
    using x by (simp add: algebra_simps del: of_nat_mult of_nat_add)
  from floor_near_fraction [OF D near]
  have res: "if ?m = 0 then percent_int d n = int ?k \<or> percent_int d n = int ?k - 1
        else percent_int d n = int ?k"
    by (simp only: percent_int_def)
  show ?thesis
  proof (cases "?m = 0")
    case True
    with x have "?x + 1 / 2 = of_int (exact_percent d n)"
      by (simp add: k del: of_nat_mult of_nat_add)
    with res True show ?thesis
      by (auto simp: k simp del: of_nat_mult of_nat_add)
  next
    case False
    with res show ?thesis by (simp add: k)
  qed
qed

lemma round53_of_nat:
  assumes "n < 2 ^ 53"
  shows "round53 (of_nat n) = of_nat n"
proof (cases "n = 0")
  case True
  then show ?thesis by (simp add: round53_zero)
next
  case False
  let ?x = "of_nat n :: rat"
  let ?e = "binade ?x"
  from False have x: "0 < ?x" by simp
  from binade_bounds [OF x] have b: "2 powi ?e \<le> ?x" "?x < 2 powi (?e + 1)" by simp_all
  have "(1::rat) \<le> ?x" using False by (simp add: Suc_leI)
  then have e0: "0 \<le> ?e"
    using binade_ge [OF x, of 0] by simp
  have "?x < of_nat (2 ^ 53)" using assms by (simp only: of_nat_less_iff)
  then have "?x < 2 powi 53" by simp
  with b(1) have "(2::rat) powi ?e < 2 powi 53" by linarith
  have e52: "?e \<le> 52"
  proof (rule ccontr)
    assume "\<not> ?e \<le> 52"
    then have "(2::rat) powi 53 \<le> 2 powi ?e"
      by (intro power_int_increasing) simp_all
    with \<open>(2::rat) powi ?e < 2 powi 53\<close> show False by linarith
  qed
  let ?m = "int n * 2 ^ nat (52 - ?e)"
  have "(2::rat) ^ nat (52 - ?e) = 2 powi (52 - ?e)"
    using e52 by (simp add: power_int_def)
  then have "(of_int ?m :: rat) * 2 powi (?e - 52) = ?x * (2 powi (52 - ?e) * 2 powi (?e - 52))"
    by simp
  also have "\<dots> = ?x"
    by (simp add: power_int_add [symmetric])
  finally have m: "of_int ?m * 2 powi (?e - 52) = ?x" .
  have near: "\<bar>?x - of_int ?m * 2 powi (?e - 52)\<bar> < 2 powi (?e - 53)"
    unfolding m by simp
  have "- 1022 \<le> ?e" using e0 by simp
  from round53_unique [OF b(1) b(2) this near] show ?thesis
    unfolding m .
qed

lemma to_double_of_nat:
  assumes "n < 2 ^ 53"
  shows "to_double (of_nat n) = Fin (of_nat n)"
proof -
  have "(of_nat n :: rat) < of_nat (2 ^ 53)" using assms by (simp only: of_nat_less_iff)
  then have "(of_nat n :: rat) < 2 ^ 53" by simp
  also have "\<dots> < 2 powi 1024" by simp
  finally have "round53 (of_nat n) < 2 powi 1024"
    by (simp only: round53_of_nat [OF assms])
  then have "to_double (of_nat n) = Fin (round53 (of_nat n))"
    by (intro to_double_bounded [of _ "of_nat n"]) simp_all
  then show ?thesis by (simp only: round53_of_nat [OF assms])
qed

lemma to_double_numeral:
  "numeral k < (2::nat) ^ 53 \<Longrightarrow> to_double (numeral k) = Fin (numeral k)"
  using to_double_of_nat [of "numeral k"] by simp

lemma to_double_zero: "to_double 0 = Fin 0"
  using to_double_of_nat [of 0] by simp

lemma round53_half: "round53 (1 / 2) = 1 / 2"
  using round53_unique [of "- 1" "1 / 2" "2 ^ 52"] by simp

lemma round53_fifty: "round53 50 = 50"
  using round53_of_nat [of 50] by simp

lemma percent_one_of_one: "percent_int 1 1 = 100"
proof -
  have "\<lfloor>100 + 1 / 2 :: rat\<rfloor> = 100" by (rule floor_unique) simp_all
  then show ?thesis
    by (simp only: percent_int_def of_nat_1 div_by_1 round53_one mult_1 round53_hundred)
qed

lemma percent_one_of_two: "percent_int 1 2 = 50"
proof -
  have a: "round53 (of_nat 1 / of_nat 2) = 1 / 2" by (simp add: round53_half)
  have b: "round53 (1 / 2 * 100) = 50" by (simp add: round53_fifty)
  have c: "\<lfloor>50 + 1 / 2 :: rat\<rfloor> = 50" by (rule floor_unique) simp_all
  show ?thesis unfolding percent_int_def a b by (rule c)
qed

lemma percent_tie: "percent_int 23 40 = 57"
proof -
  have a: "round53 (of_nat 23 / of_nat 40) = 5179139571476070 / 2 ^ 53"
    using round53_unique [of "- 1" "23 / 40" 5179139571476070] by simp
  have b: "round53 (5179139571476070 / 2 ^ 53 * 100) = 8092405580431359 / 2 ^ 47"
    using round53_unique [of 5 "5179139571476070 / 2 ^ 53 * 100" 8092405580431359] by simp
  have c: "\<lfloor>8092405580431359 / 2 ^ 47 + 1 / 2 :: rat\<rfloor> = 57"
    by (rule floor_unique) simp_all
  show ?thesis unfolding percent_int_def a b by (rule c)
qed

lemma exact_percent_tie: "exact_percent 23 40 = 58"
proof -
  have "\<lfloor>of_nat 23 / of_nat 40 * 100 + 1 / 2 :: rat\<rfloor> = 58"
    by (rule floor_unique) simp_all
  then show ?thesis by (simp only: exact_percent_def round_def)
qed

section \<open>Properties of the analysis progress component\<close>

subsection \<open>Finding and replacing a stage\<close>

lemma findIndex_bounds: "- 1 \<le> findIndex P xs \<and> findIndex P xs < int (length xs)"
  by (induction xs) (auto simp: Let_def)

lemma findIndex_neg_iff: "findIndex P xs < 0 \<longleftrightarrow> (\<forall>x \<in> set xs. \<not> P x)"
  using findIndex_bounds [of P]
  by (induction xs) (auto simp: Let_def)

lemma findIndex_first:
  "0 \<le> findIndex P xs \<Longrightarrow>
     P (xs ! nat (findIndex P xs)) \<and> (\<forall>j < nat (findIndex P xs). \<not> P (xs ! j))"
proof (induction xs)
  case Nil
  then show ?case by simp
next
  case (Cons x xs)
  show ?case
  proof (cases "P x")
    case True
    then show ?thesis by simp
  next
    case False
    with Cons.prems have nn: "0 \<le> findIndex P xs"
      by (auto simp: Let_def split: if_splits)
    with False have eq: "findIndex P (x # xs) = findIndex P xs + 1"
      by (simp add: Let_def)
    from nn have n: "nat (findIndex P xs + 1) = Suc (nat (findIndex P xs))" by simp
    from Cons.IH [OF nn] False show ?thesis
      unfolding eq n by (auto simp: less_Suc_eq_0_disj)
  qed
qed

lemma upsert_Nil: "upsert [] s = [s]"
  by (simp add: upsert_def)

lemma upsert_Cons:
  "upsert (x # xs) s = (if name x = name s then s # xs else x # upsert xs s)"
  using findIndex_bounds [of "\<lambda>t. name t = name s" xs]
  by (auto simp: upsert_def Let_def nat_add_distrib)

lemma upsert_new: "name s \<notin> name ` set prev \<Longrightarrow> upsert prev s = prev @ [s]"
  by (induction prev) (auto simp: upsert_Nil upsert_Cons)

lemma names_upsert:
  "map name (upsert prev s) =
     (if name s \<in> set (map name prev) then map name prev else map name prev @ [name s])"
  by (induction prev) (auto simp: upsert_Nil upsert_Cons)

subsection \<open>Stage events of a run\<close>

lemma stages_clearTimer: "stages (clearTimer st) = stages st"
  by (simp add: clearTimer_def split: option.splits)

lemma stages_invoke_onPaused: "stages (invoke_onPaused st) = stages st"
  by (simp add: invoke_onPaused_def invoke_def)

lemma stages_onUpdate:
  "stages (onUpdate e d st) =
     (if e = ''paused'' then stages st
      else case stage_of d of None \<Rightarrow> stages st | Some s \<Rightarrow> upsert (stages st) s)"
  by (simp add: onUpdate_def stages_clearTimer stages_invoke_onPaused Let_def
           split: option.splits)

lemma truthy_name_iff: "truthy (ev_name d) \<longleftrightarrow> stage_of d \<noteq> None"
  by (simp add: truthy_def stage_of_def split: option.splits)

lemma reported_Nil: "reported [] = []"
  by (simp add: reported_def List.map_filter_simps)

lemma reported_Cons:
  "reported ((e, d) # es) =
     (if e = ''paused'' then reported es
      else case stage_of d of None \<Rightarrow> reported es | Some s \<Rightarrow> s # reported es)"
  by (auto simp: reported_def is_stage_event_def truthy_name_iff List.map_filter_simps
           split: option.splits)

lemma stages_apply_updates:
  "stages (apply_updates es st) = foldl upsert (stages st) (reported es)"
proof (induction es arbitrary: st)
  case Nil
  show ?case by (simp add: reported_Nil)
next
  case (Cons ev es)
  obtain e d where ev: "ev = (e, d)" by (cases ev)
  show ?case
    unfolding ev by (simp add: Cons.IH stages_onUpdate reported_Cons split: option.splits)
qed

lemma names_foldl_upsert:
  "map name (foldl upsert prev ss) = first_reported (map name prev) (map name ss)"
  by (induction ss arbitrary: prev) (simp_all add: names_upsert)

lemma set_first_reported: "set (first_reported seen ns) = set seen \<union> set ns"
  by (induction ns arbitrary: seen) auto

lemma distinct_first_reported: "distinct seen \<Longrightarrow> distinct (first_reported seen ns)"
  by (induction ns arbitrary: seen) auto

lemma set_upsert:
  "distinct (map name prev) \<Longrightarrow>
     set (upsert prev x) = insert x {s \<in> set prev. name s \<noteq> name x}"
  by (induction prev) (auto simp: upsert_Nil upsert_Cons image_iff)

lemma distinct_names_upsert:
  "distinct (map name prev) \<Longrightarrow> distinct (map name (upsert prev x))"
  by (simp add: names_upsert)

lemma last_for_foldl_upsert:
  "distinct (map name prev) \<Longrightarrow> s \<in> set (foldl upsert prev ss) \<Longrightarrow>
     last_for (name s) ss = Some s \<or> (last_for (name s) ss = None \<and> s \<in> set prev)"
proof (induction ss arbitrary: prev)
  case Nil
  then show ?case by simp
next
  case (Cons x ss)
  have d: "distinct (map name (upsert prev x))"
    using Cons.prems(1) by (rule distinct_names_upsert)
  from Cons.prems(2) have "s \<in> set (foldl upsert (upsert prev x) ss)" by simp
  from Cons.IH [OF d this]
  show ?case
  proof
    assume "last_for (name s) ss = Some s"
    then show ?thesis by simp
  next
    assume a: "last_for (name s) ss = None \<and> s \<in> set (upsert prev x)"
    then have "s = x \<or> (s \<in> set prev \<and> name s \<noteq> name x)"
      using set_upsert [OF Cons.prems(1), of x] by auto
    with a show ?thesis by auto
  qed
qed

lemma stages_startAnalysis: "stages (startAnalysis now st) = []"
  by (simp add: startAnalysis_def setTimer_def)

lemma example_stages:
  "stages (apply_updates example_events (startAnalysis 0 (mounted True))) =
     [\<lparr>name = ''A'', label = ''A'', status = ''done'', message = [], duration_ms = Fin 1500\<rparr>,
      \<lparr>name = ''B'', label = ''B'', status = ''running'', message = [], duration_ms = Fin 0\<rparr>]"
  by (simp add: example_events_def stage_ev_def startAnalysis_def setTimer_def mounted_def
        onUpdate_def stage_of_def snapshot_of_def upsert_def or_else_def or_zero_def Let_def)

lemma example_reported:
  "reported example_events =
     [\<lparr>name = ''A'', label = ''A'', status = ''running'', message = [], duration_ms = Fin 0\<rparr>,
      \<lparr>name = ''A'', label = ''A'', status = ''done'', message = [], duration_ms = Fin 1500\<rparr>,
      \<lparr>name = ''B'', label = ''B'', status = ''running'', message = [], duration_ms = Fin 0\<rparr>]"
  by (simp add: reported_def example_events_def stage_ev_def is_stage_event_def truthy_def
        List.map_filter_simps stage_of_def or_else_def or_zero_def)

text \<open>
  Claim C3. Start a run and let the update handler see any sequence of events. The stage
  list then holds exactly one record for each name that a stage event reported (the names
  of the list are distinct, and they are the reported names), and each record is the one
  built from the last stage event with its name.
\<close>

theorem stage_upsert_last_wins:
  "let final = stages (apply_updates es (startAnalysis now st0)); evs = reported es
   in distinct (map name final)
      \<and> set (map name final) = set (map name evs)
      \<and> (\<forall>s \<in> set final. last_for (name s) evs = Some s)"
proof -
  let ?final = "stages (apply_updates es (startAnalysis now st0))"
  have f: "?final = foldl upsert [] (reported es)"
    by (simp add: stages_apply_updates stages_startAnalysis)
  have n: "map name ?final = first_reported [] (map name (reported es))"
    unfolding f using names_foldl_upsert [of "[]"] by simp
  have 1: "distinct (map name ?final)"
    unfolding n by (rule distinct_first_reported) simp
  have 2: "set (map name ?final) = set (map name (reported es))"
    unfolding n by (simp add: set_first_reported)
  have 3: "\<forall>s \<in> set ?final. last_for (name s) (reported es) = Some s"
  proof
    fix s assume "s \<in> set ?final"
    then have "s \<in> set (foldl upsert [] (reported es))" by (simp only: f)
    from last_for_foldl_upsert [OF _ this] show "last_for (name s) (reported es) = Some s"
      by simp
  qed
  from 1 2 3 show ?thesis by (simp only: Let_def) 
qed

theorem stage_upsert_last_wins_witness:
  "\<lparr>name = ''A'', label = ''A'', status = ''done'', message = [], duration_ms = Fin 1500\<rparr>
     \<in> set (stages (apply_updates example_events (startAnalysis 0 (mounted True))))
   \<and> last_for ''A'' (reported example_events) =
       Some \<lparr>name = ''A'', label = ''A'', status = ''done'', message = [], duration_ms = Fin 1500\<rparr>
   \<and> length (reported example_events) = 3
   \<and> length (stages (apply_updates example_events (startAnalysis 0 (mounted True)))) = 2"
proof -
  let ?a = "\<lparr>name = ''A'', label = ''A'', status = ''done'', message = [], duration_ms = Fin 1500\<rparr>"
  let ?final = "stages (apply_updates example_events (startAnalysis 0 (mounted True)))"
  have m: "?a \<in> set ?final"
    by (simp add: example_stages)
  have "\<forall>s \<in> set ?final. last_for (name s) (reported example_events) = Some s"
    using stage_upsert_last_wins [of example_events 0 "mounted True"]
    unfolding Let_def by blast
  from bspec [OF this m] have "last_for ''A'' (reported example_events) = Some ?a"
    by simp
  with m show ?thesis
    by (simp add: example_stages example_reported)
qed

lemma upsert_existing:
  assumes "name s \<in> name ` set prev"
  shows "\<exists>i < length prev. name (prev ! i) = name s \<and> (\<forall>j < i. name (prev ! j) \<noteq> name s)
            \<and> upsert prev s = prev[i := s]"
proof -
  let ?P = "\<lambda>t. name t = name s"
  from assms have "\<not> findIndex ?P prev < 0"
    by (auto simp: findIndex_neg_iff)
  then have nn: "0 \<le> findIndex ?P prev" by simp
  let ?i = "nat (findIndex ?P prev)"
  have "?i < length prev"
    using findIndex_bounds [of ?P prev] nn by simp
  moreover have "name (prev ! ?i) = name s \<and> (\<forall>j < ?i. name (prev ! j) \<noteq> name s)"
    using findIndex_first [OF nn] by simp
  moreover have "upsert prev s = prev[?i := s]"
    using nn by (simp add: upsert_def)
  ultimately show ?thesis by blast
qed

text \<open>
  Claim C9. The stage list keeps the order in which names were first reported. An event for
  a listed name replaces the record at the first (and, in a run, only) index that holds the
  name and leaves every name where it was; an event for a new name appends at the end. So
  after any sequence of events of a run the names of the list are the reported names in
  the order of their first report.
\<close>

theorem stages_keep_first_appearance_order:
  "map name (stages (apply_updates es (startAnalysis now st0)))
     = first_reported [] (map name (reported es))
   \<and> (name s \<in> name ` set prev \<longrightarrow>
        (\<exists>i < length prev. name (prev ! i) = name s \<and> (\<forall>j < i. name (prev ! j) \<noteq> name s)
            \<and> upsert prev s = prev[i := s])
        \<and> map name (upsert prev s) = map name prev)
   \<and> (name s \<notin> name ` set prev \<longrightarrow> upsert prev s = prev @ [s])"
proof -
  have "map name (stages (apply_updates es (startAnalysis now st0)))
          = first_reported [] (map name (reported es))"
    using names_foldl_upsert [of "[]" "reported es"]
    by (simp add: stages_apply_updates stages_startAnalysis)
  moreover have "name s \<in> name ` set prev \<longrightarrow> map name (upsert prev s) = map name prev"
    by (simp add: names_upsert)
  ultimately show ?thesis
    using upsert_existing [of s prev] upsert_new [of s prev] by blast
qed

theorem stages_keep_first_appearance_order_witness:
  "map name (stages (apply_updates example_events (startAnalysis 0 (mounted True))))
     = [''A'', ''B'']
   \<and> upsert [\<lparr>name = ''A'', label = ''A'', status = ''running'', message = [], duration_ms = Fin 0\<rparr>,
              \<lparr>name = ''B'', label = ''B'', status = ''running'', message = [], duration_ms = Fin 0\<rparr>]
             \<lparr>name = ''A'', label = ''A'', status = ''done'', message = [], duration_ms = Fin 1500\<rparr>
       = [\<lparr>name = ''A'', label = ''A'', status = ''done'', message = [], duration_ms = Fin 1500\<rparr>,
          \<lparr>name = ''B'', label = ''B'', status = ''running'', message = [], duration_ms = Fin 0\<rparr>]
   \<and> upsert [\<lparr>name = ''A'', label = ''A'', status = ''done'', message = [], duration_ms = Fin 1500\<rparr>]
             \<lparr>name = ''B'', label = ''B'', status = ''running'', message = [], duration_ms = Fin 0\<rparr>
       = [\<lparr>name = ''A'', label = ''A'', status = ''done'', message = [], duration_ms = Fin 1500\<rparr>,
          \<lparr>name = ''B'', label = ''B'', status = ''running'', message = [], duration_ms = Fin 0\<rparr>]"
proof -
  let ?ar = "\<lparr>name = ''A'', label = ''A'', status = ''running'', message = [], duration_ms = Fin 0\<rparr>"
  let ?a = "\<lparr>name = ''A'', label = ''A'', status = ''done'', message = [], duration_ms = Fin 1500\<rparr>"
  let ?b = "\<lparr>name = ''B'', label = ''B'', status = ''running'', message = [], duration_ms = Fin 0\<rparr>"
  have 1: "map name (stages (apply_updates example_events (startAnalysis 0 (mounted True))))
             = first_reported [] (map name (reported example_events))"
    using stages_keep_first_appearance_order [of example_events 0 "mounted True"] by blast
  then have c1: "map name (stages (apply_updates example_events (startAnalysis 0 (mounted True))))
             = [''A'', ''B'']"
    by (simp add: example_reported)
  have mem: "name ?a \<in> name ` set [?ar, ?b]"
    by simp
  have "name ?a \<in> name ` set [?ar, ?b] \<longrightarrow>
          (\<exists>i < length [?ar, ?b]. name ([?ar, ?b] ! i) = name ?a
              \<and> (\<forall>j < i. name ([?ar, ?b] ! j) \<noteq> name ?a)
              \<and> upsert [?ar, ?b] ?a = [?ar, ?b][i := ?a])"
    using stages_keep_first_appearance_order [of _ _ _ ?a "[?ar, ?b]"] by blast
  from mp [OF this mem] obtain i where i: "i < length [?ar, ?b]"
      "name ([?ar, ?b] ! i) = name ?a" "upsert [?ar, ?b] ?a = [?ar, ?b][i := ?a]"
    by blast
  have "i = 0"
  proof (rule ccontr)
    assume "i \<noteq> 0"
    with i(1) have "i = 1" by simp
    with i(2) show False by simp
  qed
  with i(3) have c2: "upsert [?ar, ?b] ?a = [?a, ?b]"
    by simp
  have "name ?b \<notin> name ` set [?a] \<longrightarrow> upsert [?a] ?b = [?a] @ [?b]"
    using stages_keep_first_appearance_order [of _ _ _ ?b "[?a]"] by blast
  then have c3: "upsert [?a] ?b = [?a, ?b]"
    by simp
  show ?thesis
    by (intro conjI) (rule c1, rule c2, rule c3)
qed

subsection \<open>The overall percentage\<close>

lemma doneCount_update:
  "i < length xs \<Longrightarrow>
     doneCount (xs[i := v]) + (if is_done (xs ! i) then 1 else 0)
       = doneCount xs + (if is_done v then 1 else 0)"
proof (induction xs arbitrary: i)
  case Nil
  then show ?case by simp
next
  case (Cons x xs)
  show ?case
  proof (cases i)
    case 0
    then show ?thesis by (simp add: doneCount_def)
  next
    case (Suc j)
    with Cons.prems have "j < length xs" by simp
    from Cons.IH [OF this] Suc show ?thesis
      by (simp add: doneCount_def)
  qed
qed

lemma doneCount_le_length: "doneCount xs \<le> length xs"
  by (simp add: doneCount_def)

lemma doneCount_append: "doneCount (xs @ [v]) = doneCount xs + (if is_done v then 1 else 0)"
  by (simp add: doneCount_def)

lemma is_done_eq: "is_done = (\<lambda>s. status s = ''done'')"
  by (rule ext) (simp add: is_done_def)

lemma overallPercent_double:
  "overallPercent st
     = double_overall_percent (progress st) (doneCount (stages st)) (length (stages st))"
  by (simp add: overallPercent_def double_overall_percent_def double_percent_def js_length_def
        doneCount_def is_done_eq split: option.splits)

lemma derived_double:
  assumes "d \<le> n"
  shows "double_overall_percent None d n = Fin (of_int (percent_int d n))"
proof (cases "n = 0")
  case True
  with assms show ?thesis
    by (simp add: double_overall_percent_def percent_int_zero)
next
  case False
  with assms show ?thesis
    by (simp add: double_overall_percent_def double_percent_eq)
qed

lemma derived_percent_mono:
  assumes "(of_nat d :: rat) / of_nat n \<le> of_nat d' / of_nat n'" and "d \<le> n" and "d' \<le> n'"
  shows "double_overall_percent None d n \<le> double_overall_percent None d' n'"
  using percent_int_mono [OF assms(1)]
  by (simp add: derived_double [OF assms(2)] derived_double [OF assms(3)] less_eq_js_number_def)

lemma progress_onUpdate:
  "progress (onUpdate e d st) =
     (if e = ''paused'' then progress st
      else case stage_of d of
             None \<Rightarrow> progress st
           | Some s \<Rightarrow> (case snapshot_of d of None \<Rightarrow> progress st | Some p \<Rightarrow> Some p))"
  by (simp add: onUpdate_def clearTimer_def invoke_onPaused_def invoke_def Let_def
        split: option.splits)

text \<open>
  Claim C2, as the code has it. With no snapshot held and none carried by the event, the
  percentage does not go down across a stage event that does not turn a Done stage into
  something else, provided the event updates a listed stage, or reports a Done stage, or
  arrives while no stage is Done. The case left out is the one in which it does go down:
  a new stage that is not Done joins a list in which some stage is Done, so the
  denominator grows and the numerator does not. The comparison is the one of doubles.
\<close>

theorem overallPercent_monotone_amended:
  assumes "progress st = None" and "snapshot_of d = None"
    and "event \<noteq> ''paused''" and "stage_of d = Some stage"
    and noregress: "\<forall>s \<in> set (stages st). name s = name stage \<and> is_done s \<longrightarrow> is_done stage"
    and shape: "name stage \<in> name ` set (stages st) \<or> is_done stage \<or> doneCount (stages st) = 0"
  shows "overallPercent st \<le> overallPercent (onUpdate event d st)"
proof -
  let ?prev = "stages st"
  let ?next = "upsert ?prev stage"
  have st': "stages (onUpdate event d st) = ?next" "progress (onUpdate event d st) = None"
    using assms(1-4) by (simp_all add: stages_onUpdate progress_onUpdate)
  have "(of_nat (doneCount ?prev) :: rat) / of_nat (length ?prev)
          \<le> of_nat (doneCount ?next) / of_nat (length ?next)"
  proof (cases "name stage \<in> name ` set ?prev")
    case True
    from upsert_existing [OF True] obtain i where i: "i < length ?prev"
        "name (?prev ! i) = name stage" "?next = ?prev[i := stage]"
      by blast
    from i(1) have "?prev ! i \<in> set ?prev" by simp
    with noregress i(2) have "is_done (?prev ! i) \<longrightarrow> is_done stage" by blast
    with doneCount_update [OF i(1), of stage] have "doneCount ?prev \<le> doneCount ?next"
      unfolding i(3) by (auto split: if_splits)
    moreover have "length ?next = length ?prev"
      by (simp add: i(3))
    ultimately show ?thesis
      by (simp add: divide_right_mono)
  next
    case False
    then have nx: "?next = ?prev @ [stage]" by (rule upsert_new)
    from False shape consider "is_done stage" | "doneCount ?prev = 0" by auto
    then show ?thesis
    proof cases
      case 1
      have "doneCount ?prev \<le> length ?prev" by (rule doneCount_le_length)
      then have "(of_nat (doneCount ?prev) :: rat) \<le> of_nat (length ?prev)"
        by (simp only: of_nat_le_iff)
      then have "(of_nat (doneCount ?prev) :: rat) * (of_nat (length ?prev) + 1)
                   \<le> (of_nat (doneCount ?prev) + 1) * of_nat (length ?prev)"
        by (simp add: algebra_simps)
      then show ?thesis
        unfolding nx using 1
        by (cases "length ?prev = 0") (simp_all add: doneCount_append field_simps)
    next
      case 2
      then show ?thesis by simp
    qed
  qed
  then show ?thesis
    unfolding overallPercent_double st' assms(1)
    by (rule derived_percent_mono) (rule doneCount_le_length)+
qed

lemma one_done_stages:
  "stages one_done =
     [\<lparr>name = ''A'', label = ''A'', status = ''done'', message = [], duration_ms = Fin 1500\<rparr>]"
  by (simp add: one_done_def stage_ev_def startAnalysis_def setTimer_def mounted_def
        onUpdate_def stage_of_def snapshot_of_def upsert_def or_else_def or_zero_def Let_def)

lemma one_done_progress: "progress one_done = None"
  by (simp add: one_done_def stage_ev_def startAnalysis_def setTimer_def mounted_def
        onUpdate_def stage_of_def snapshot_of_def upsert_def or_else_def or_zero_def Let_def)

lemma tie_state:
  "doneCount (stages (apply_updates tie_events (startAnalysis 0 (mounted True)))) = 23
   \<and> length (stages (apply_updates tie_events (startAnalysis 0 (mounted True)))) = 40
   \<and> progress (apply_updates tie_events (startAnalysis 0 (mounted True))) = None"
  by code_simp

lemma tie_run_facts:
  "doneCount (stages tie_run) = 23" "length (stages tie_run) = 40" "progress tie_run = None"
  using tie_state by (simp_all add: tie_run_def)

lemma percent_Suc_values:
  "percent_int (Suc 0) (Suc 0) = 100" "percent_int (Suc 0) (Suc (Suc 0)) = 50"
  using percent_one_of_one percent_one_of_two by (simp_all add: numeral_2_eq_2)

lemma one_done_percent: "overallPercent one_done = Fin 100"
  by (simp add: overallPercent_double one_done_progress one_done_stages doneCount_def is_done_def
        derived_double percent_Suc_values)

text \<open>
  Claim C2 as stated fails: one stage is Done (100 percent), then a stage event appends a
  running stage; no snapshot is involved and no stage regresses, and the percentage falls
  to 50.
\<close>

theorem overallPercent_drops_counterexample:
  "progress one_done = None
   \<and> snapshot_of (stage_ev ''B'' ''running'' 0) = None
   \<and> stages one_done =
       [\<lparr>name = ''A'', label = ''A'', status = ''done'', message = [], duration_ms = Fin 1500\<rparr>]
   \<and> stages (onUpdate ''stage'' (stage_ev ''B'' ''running'' 0) one_done) =
       [\<lparr>name = ''A'', label = ''A'', status = ''done'', message = [], duration_ms = Fin 1500\<rparr>,
        \<lparr>name = ''B'', label = ''B'', status = ''running'', message = [], duration_ms = Fin 0\<rparr>]
   \<and> overallPercent one_done = Fin 100
   \<and> overallPercent (onUpdate ''stage'' (stage_ev ''B'' ''running'' 0) one_done) = Fin 50"
proof -
  let ?ev = "stage_ev ''B'' ''running'' 0"
  have s: "stages (onUpdate ''stage'' ?ev one_done) =
       [\<lparr>name = ''A'', label = ''A'', status = ''done'', message = [], duration_ms = Fin 1500\<rparr>,
        \<lparr>name = ''B'', label = ''B'', status = ''running'', message = [], duration_ms = Fin 0\<rparr>]"
    by (simp add: stages_onUpdate one_done_stages stage_ev_def stage_of_def upsert_def
          or_else_def or_zero_def)
  have n: "snapshot_of ?ev = None"
    by (simp add: stage_ev_def snapshot_of_def)
  have p: "progress (onUpdate ''stage'' ?ev one_done) = None"
    by (simp add: progress_onUpdate one_done_progress n split: option.splits)
  have "overallPercent (onUpdate ''stage'' ?ev one_done) = Fin 50"
    by (simp add: overallPercent_double p s doneCount_def is_done_def derived_double
          percent_Suc_values)
  with s n show ?thesis
    by (simp add: one_done_progress one_done_stages one_done_percent)
qed

lemma one_running_stages:
  "stages one_running =
     [\<lparr>name = ''A'', label = ''A'', status = ''running'', message = [], duration_ms = Fin 0\<rparr>]"
  by (simp add: one_running_def stage_ev_def startAnalysis_def setTimer_def mounted_def
        onUpdate_def stage_of_def snapshot_of_def upsert_def or_else_def or_zero_def Let_def)

lemma one_running_progress: "progress one_running = None"
  by (simp add: one_running_def stage_ev_def startAnalysis_def setTimer_def mounted_def
        onUpdate_def stage_of_def snapshot_of_def upsert_def or_else_def or_zero_def Let_def)

theorem overallPercent_monotone_amended_witness:
  "overallPercent one_running = Fin 0
   \<and> overallPercent (onUpdate ''stage'' (stage_ev ''A'' ''done'' 1500) one_running) = Fin 100
   \<and> overallPercent one_running
        \<le> overallPercent (onUpdate ''stage'' (stage_ev ''A'' ''done'' 1500) one_running)"
proof -
  let ?d = "stage_ev ''A'' ''done'' 1500"
  let ?stage = "\<lparr>name = ''A'', label = ''A'', status = ''done'', message = [],
                  duration_ms = Fin 1500\<rparr>"
  have h1: "progress one_running = None" by (rule one_running_progress)
  have h2: "snapshot_of ?d = None" by (simp add: stage_ev_def snapshot_of_def)
  have h3: "''stage'' \<noteq> ''paused''" by simp
  have h4: "stage_of ?d = Some ?stage"
    by (simp add: stage_ev_def stage_of_def or_else_def or_zero_def)
  have h5: "\<forall>s \<in> set (stages one_running). name s = name ?stage \<and> is_done s \<longrightarrow> is_done ?stage"
    by (simp add: is_done_def)
  have h6: "name ?stage \<in> name ` set (stages one_running) \<or> is_done ?stage
              \<or> doneCount (stages one_running) = 0"
    by (simp add: one_running_stages)
  have le: "overallPercent one_running \<le> overallPercent (onUpdate ''stage'' ?d one_running)"
    using h1 h2 h3 h4 h5 h6 by (rule overallPercent_monotone_amended)
  have a: "overallPercent one_running = Fin 0"
    by (simp add: overallPercent_double one_running_progress one_running_stages doneCount_def
          is_done_def derived_double percent_int_zero)
  have s: "stages (onUpdate ''stage'' ?d one_running) = [?stage]"
    by (simp add: stages_onUpdate one_running_stages h4 upsert_def)
  have p: "progress (onUpdate ''stage'' ?d one_running) = None"
    by (simp add: progress_onUpdate one_running_progress h2 split: option.splits)
  have b: "overallPercent (onUpdate ''stage'' ?d one_running) = Fin 100"
    by (simp add: overallPercent_double p s doneCount_def is_done_def derived_double
          percent_Suc_values)
  from a b le show ?thesis by blast
qed

lemma carried_snapshot_eq: "carried_snapshot d = snapshot_of d"
  by (simp add: carried_snapshot_def snapshot_of_def split: option.splits)

lemma snaps_Nil: "snaps [] = []"
  by (simp add: snaps_def List.map_filter_simps)

lemma snaps_Cons:
  "snaps ((e, d) # es) =
     (if e = ''paused'' then snaps es
      else case stage_of d of
             None \<Rightarrow> snaps es
           | Some s \<Rightarrow> (case snapshot_of d of None \<Rightarrow> snaps es | Some p \<Rightarrow> p # snaps es))"
  by (auto simp: snaps_def is_stage_event_def truthy_name_iff List.map_filter_simps
        carried_snapshot_eq split: option.splits)

lemma progress_apply_updates:
  "progress (apply_updates es st) = (if snaps es = [] then progress st else Some (last (snaps es)))"
proof (induction es arbitrary: st)
  case Nil
  show ?case by (simp add: snaps_Nil)
next
  case (Cons ev es)
  obtain e d where ev: "ev = (e, d)" by (cases ev)
  show ?case
    unfolding ev by (simp add: Cons.IH progress_onUpdate snaps_Cons split: option.splits)
qed

lemma supplied_snapshot_snaps:
  "supplied_snapshot es = (if snaps es = [] then None else Some (last (snaps es)))"
  by (simp add: supplied_snapshot_def split: list.splits)

lemma progress_startAnalysis: "progress (startAnalysis now st) = None"
  by (simp add: startAnalysis_def setTimer_def)

lemma derived_near_exact:
  assumes "d \<le> n" and "n < 2 ^ 32"
  shows "double_overall_percent None d n = spec_overall_percent None d n
         \<or> (double_overall_percent None d n = Fin (of_int (exact_percent d n - 1))
            \<and> of_nat d / of_nat n * (100::rat) + 1 / 2 = of_int (exact_percent d n))"
proof (cases "n = 0")
  case True
  then show ?thesis
    by (simp add: double_overall_percent_def spec_overall_percent_def)
next
  case False
  then have n: "0 < n" by simp
  have "double_overall_percent None d n = Fin (of_int (percent_int d n))"
    using assms(1) by (rule derived_double)
  moreover have "spec_overall_percent None d n = Fin (of_int (exact_percent d n))"
    using False by (simp add: spec_overall_percent_def)
  ultimately show ?thesis
    using percent_int_exact [OF assms(1) n assms(2)] by auto
qed

text \<open>
  Claim C6, as the code has it. In every state the reported percentage is the snapshot's
  percent when a snapshot is held, else \<open>Math.round(doneCount / total * 100)\<close> computed
  on doubles when there is a stage, else 0; and the snapshot held after the events of a
  run is the one carried by the latest stage event that carried one. With no snapshot
  held, the double computation gives the exact \<open>round(doneCount / total * 100)\<close> unless
  \<open>doneCount / total * 100\<close> lies exactly halfway between two integers; there the exact
  rounding goes up, and the component shows that value or the one below it. (An array
  has fewer than \<open>2^32\<close> elements.)
\<close>

theorem overallPercent_precedence_double:
  "overallPercent st
     = double_overall_percent (progress st) (doneCount (stages st)) (length (stages st))
   \<and> progress (apply_updates es (startAnalysis now st0)) = supplied_snapshot es
   \<and> (progress st = None \<longrightarrow> length (stages st) < 2 ^ 32 \<longrightarrow>
        overallPercent st
          = spec_overall_percent None (doneCount (stages st)) (length (stages st))
        \<or> (overallPercent st
              = Fin (of_int (exact_percent (doneCount (stages st)) (length (stages st)) - 1))
            \<and> of_nat (doneCount (stages st)) / of_nat (length (stages st)) * (100::rat) + 1 / 2
                = of_int (exact_percent (doneCount (stages st)) (length (stages st)))))"
proof -
  have 1: "overallPercent st
     = double_overall_percent (progress st) (doneCount (stages st)) (length (stages st))"
    by (rule overallPercent_double)
  have 2: "progress (apply_updates es (startAnalysis now st0)) = supplied_snapshot es"
    by (simp add: progress_apply_updates supplied_snapshot_snaps progress_startAnalysis)
  have 3: "progress st = None \<longrightarrow> length (stages st) < 2 ^ 32 \<longrightarrow>
        overallPercent st
          = spec_overall_percent None (doneCount (stages st)) (length (stages st))
        \<or> (overallPercent st
              = Fin (of_int (exact_percent (doneCount (stages st)) (length (stages st)) - 1))
            \<and> of_nat (doneCount (stages st)) / of_nat (length (stages st)) * (100::rat) + 1 / 2
                = of_int (exact_percent (doneCount (stages st)) (length (stages st))))"
  proof (intro impI)
    assume p: "progress st = None" and l: "length (stages st) < 2 ^ 32"
    from derived_near_exact [OF doneCount_le_length [of "stages st"] l]
    show "overallPercent st
          = spec_overall_percent None (doneCount (stages st)) (length (stages st))
        \<or> (overallPercent st
              = Fin (of_int (exact_percent (doneCount (stages st)) (length (stages st)) - 1))
            \<and> of_nat (doneCount (stages st)) / of_nat (length (stages st)) * (100::rat) + 1 / 2
                = of_int (exact_percent (doneCount (stages st)) (length (stages st))))"
      unfolding 1 p .
  qed
  from 1 2 3 show ?thesis by (intro conjI)
qed

text \<open>
  Claim C6 as stated fails, the formula being read as exact arithmetic: with 23 of 40
  stages done the exact value is 57.5, which rounds to 58, while the quotient 0.575 is
  not a double, the product of its nearest double and 100 is the double just below 57.5,
  and the component shows 57.
\<close>

theorem overallPercent_double_rounding_counterexample:
  "progress tie_run = None
   \<and> doneCount (stages tie_run) = 23
   \<and> length (stages tie_run) = 40
   \<and> overallPercent tie_run = Fin 57
   \<and> spec_overall_percent (progress tie_run) (doneCount (stages tie_run))
        (length (stages tie_run)) = Fin 58"
  by (simp add: tie_run_facts overallPercent_double derived_double percent_tie
        spec_overall_percent_def exact_percent_tie)

lemma exact_percent_half: "exact_percent (Suc 0) (Suc (Suc 0)) = 50"
proof -
  have "\<lfloor>of_nat (Suc 0) / of_nat (Suc (Suc 0)) * 100 + 1 / 2 :: rat\<rfloor> = 50"
    by (rule floor_unique) simp_all
  then show ?thesis by (simp only: exact_percent_def round_def)
qed

theorem overallPercent_precedence_double_witness:
  "overallPercent (apply_updates snapshot_events (startAnalysis 0 (mounted True))) = Fin 25
   \<and> overallPercent (apply_updates example_events (startAnalysis 0 (mounted True))) = Fin 50
   \<and> overallPercent (startAnalysis 0 (mounted True)) = Fin 0"
proof -
  let ?s0 = "startAnalysis 0 (mounted True)"
  let ?sn = "apply_updates snapshot_events ?s0" and ?ex = "apply_updates example_events ?s0"
  have sn: "supplied_snapshot snapshot_events
              = Some \<lparr>completed = Fin 1, total_count = Fin 4, percent = Fin 25\<rparr>"
    by (simp add: supplied_snapshot_def snaps_def snapshot_events_def with_snapshot_def
          stage_ev_def is_stage_event_def truthy_def carried_snapshot_def List.map_filter_simps)
  have ex: "supplied_snapshot example_events = None"
    by (simp add: supplied_snapshot_def snaps_def example_events_def stage_ev_def
          is_stage_event_def truthy_def carried_snapshot_def List.map_filter_simps)
  note t1 = overallPercent_precedence_double [of ?sn snapshot_events 0 "mounted True"]
  from t1 have "overallPercent ?sn
      = double_overall_percent (supplied_snapshot snapshot_events) (doneCount (stages ?sn))
          (length (stages ?sn))"
    by simp
  then have 1: "overallPercent ?sn = Fin 25"
    by (simp add: sn double_overall_percent_def)
  note t2 = overallPercent_precedence_double [of ?ex example_events 0 "mounted True"]
  from t2 have p: "progress ?ex = None" by (simp add: ex)
  have l: "length (stages ?ex) < 2 ^ 32" by (simp add: example_stages)
  have c: "doneCount (stages ?ex) = Suc 0" "length (stages ?ex) = Suc (Suc 0)"
    by (simp_all add: example_stages doneCount_def is_done_def)
  from t2 p l have "overallPercent ?ex
          = spec_overall_percent None (doneCount (stages ?ex)) (length (stages ?ex))
        \<or> (overallPercent ?ex
              = Fin (of_int (exact_percent (doneCount (stages ?ex)) (length (stages ?ex)) - 1))
            \<and> of_nat (doneCount (stages ?ex)) / of_nat (length (stages ?ex)) * (100::rat) + 1 / 2
                = of_int (exact_percent (doneCount (stages ?ex)) (length (stages ?ex))))"
    by blast
  then have 2: "overallPercent ?ex = Fin 50"
    unfolding c exact_percent_half by (simp add: spec_overall_percent_def exact_percent_half)
  note t3 = overallPercent_precedence_double [of ?s0 "[]" 0 "mounted True"]
  from t3 have 3: "overallPercent ?s0 = Fin 0"
    by (simp add: stages_startAnalysis progress_startAnalysis double_overall_percent_def)
  from 1 2 3 show ?thesis by blast
qed

subsection \<open>The estimate of the remaining time\<close>

lemma foldl_js_add:
  "foldl (\<lambda>sum s. js_add sum (duration_ms s)) a ss = double_sum a (map duration_ms ss)"
  by (induction ss arbitrary: a) simp_all

lemma avgMs_double: "avgMs ss = double_avgDurationMs ss"
  by (simp add: avgMs_def double_avgDurationMs_def completedStages_def doneCount_def is_done_eq
        foldl_js_add js_length_def)

lemma pendingCount_spec: "pendingCount ss = spec_pendingCount ss"
  by (simp add: pendingCount_def spec_pendingCount_def)

lemma estimatedRemainingMs_double:
  "estimatedRemainingMs ss = (case double_estimate ss of None \<Rightarrow> Fin 0 | Some v \<Rightarrow> v)"
  by (simp add: estimatedRemainingMs_def double_estimate_def avgMs_double pendingCount_spec)

lemma not_less_zero_zero: "\<not> Fin 0 < Fin 0"
  by (simp add: less_js_number_def)

text \<open>
  Claim C5, as the code has it. The estimate the component computes is
  \<open>Math.round(avgDurationMs * pendingCount)\<close> on doubles, the average being the sum of the
  durations of the Done stages, taken from left to right, divided by their number, once
  at least two stages are Done; 0 stands for "omitted". Whenever the estimate is shown,
  it is that value, the average is positive, some stage is running or pending, and at
  least two stages are Done. With fewer than two Done stages nothing is shown.
\<close>

theorem eta_matches_double:
  "estimatedRemainingMs ss = (case double_estimate ss of None \<Rightarrow> Fin 0 | Some v \<Rightarrow> v)
   \<and> (eta_shown st = Some v \<longrightarrow>
        double_estimate (stages st) = Some v
        \<and> Fin 0 < double_avgDurationMs (stages st) \<and> 0 < spec_pendingCount (stages st)
        \<and> 2 \<le> doneCount (stages st))
   \<and> (doneCount (stages st) < 2 \<longrightarrow>
        eta_shown st = None \<and> estimatedRemainingMs (stages st) = Fin 0)"
proof -
  have less2: "doneCount (stages st) < 2 \<Longrightarrow> double_estimate (stages st) = None"
    by (simp add: double_estimate_def double_avgDurationMs_def not_less_zero_zero)
  have shown: "eta_shown st = Some v \<Longrightarrow> double_estimate (stages st) = Some v"
    by (auto simp: eta_shown_def estimatedRemainingMs_double not_less_zero_zero
          split: option.splits if_splits)
  have gate: "double_estimate (stages st) = Some v \<Longrightarrow>
      Fin 0 < double_avgDurationMs (stages st) \<and> 0 < spec_pendingCount (stages st)
      \<and> 2 \<le> doneCount (stages st)"
    by (auto simp: double_estimate_def double_avgDurationMs_def not_less_zero_zero
          split: if_splits)
  have none: "doneCount (stages st) < 2 \<Longrightarrow>
      eta_shown st = None \<and> estimatedRemainingMs (stages st) = Fin 0"
    using less2 by (simp add: eta_shown_def estimatedRemainingMs_double not_less_zero_zero)
  from shown gate none show ?thesis
    by (simp add: estimatedRemainingMs_double)
qed

lemma Math_round_of_int: "Math_round (Fin (of_int k)) = Fin (of_int k)"
proof -
  have "\<lfloor>of_int k + 1 / 2 :: rat\<rfloor> = k"
    by (rule floor_unique) simp_all
  then show ?thesis by (simp add: Math_round_def)
qed

lemma Math_round_numeral: "Math_round (Fin (numeral k)) = Fin (numeral k)"
  using Math_round_of_int [of "numeral k"] by simp

lemma eta_example_stages:
  "stages (apply_updates eta_events (startAnalysis 0 (mounted True))) =
     [\<lparr>name = ''A'', label = ''A'', status = ''done'', message = [], duration_ms = Fin 1000\<rparr>,
      \<lparr>name = ''B'', label = ''B'', status = ''done'', message = [], duration_ms = Fin 2000\<rparr>,
      \<lparr>name = ''C'', label = ''C'', status = ''running'', message = [], duration_ms = Fin 0\<rparr>,
      \<lparr>name = ''D'', label = ''D'', status = ''pending'', message = [], duration_ms = Fin 0\<rparr>]"
  by (simp add: eta_events_def stage_ev_def startAnalysis_def setTimer_def mounted_def
        onUpdate_def stage_of_def snapshot_of_def upsert_def or_else_def or_zero_def Let_def)

lemma eta_example_shown:
  "eta_shown (apply_updates eta_events (startAnalysis 0 (mounted True))) = Some (Fin 3000)"
proof -
  let ?st = "apply_updates eta_events (startAnalysis 0 (mounted True))"
  have "summary ?st = None" "\<not> streamError ?st"
    by (simp_all add: eta_events_def stage_ev_def startAnalysis_def setTimer_def mounted_def
        onUpdate_def stage_of_def snapshot_of_def upsert_def or_else_def or_zero_def Let_def)
  moreover have avg: "avgMs (stages ?st) = Fin 1500"
    by (simp add: eta_example_stages avgMs_def completedStages_def js_length_def
          to_double_numeral)
  have "estimatedRemainingMs (stages ?st) = Fin 3000"
    unfolding estimatedRemainingMs_def avg
    by (simp add: eta_example_stages pendingCount_def less_js_number_def to_double_numeral
          Math_round_numeral)
  ultimately show ?thesis by (simp add: eta_shown_def less_js_number_def)
qed

theorem eta_matches_double_witness:
  "eta_shown (apply_updates eta_events (startAnalysis 0 (mounted True))) = Some (Fin 3000)
   \<and> double_estimate (stages (apply_updates eta_events (startAnalysis 0 (mounted True))))
       = Some (Fin 3000)
   \<and> doneCount (stages (apply_updates example_events (startAnalysis 0 (mounted True)))) < 2
   \<and> eta_shown (apply_updates example_events (startAnalysis 0 (mounted True))) = None"
proof -
  let ?st = "apply_updates eta_events (startAnalysis 0 (mounted True))"
  let ?ex = "apply_updates example_events (startAnalysis 0 (mounted True))"
  have a: "eta_shown ?st = Some (Fin 3000)" by (rule eta_example_shown)
  with eta_matches_double [of _ ?st "Fin 3000"]
  have b: "double_estimate (stages ?st) = Some (Fin 3000)"
    by blast
  have c: "doneCount (stages ?ex) < 2"
    by (simp add: example_stages doneCount_def is_done_def)
  with eta_matches_double [of _ ?ex] have d: "eta_shown ?ex = None"
    by blast
  from a b c d show ?thesis by blast
qed

lemma eta_tie_facts:
  "map duration_ms (filter is_done (stages eta_tie_run))
     = [Fin 9, Fin 8, Fin 8, Fin 8, Fin 8, Fin 8]"
  "doneCount (stages eta_tie_run) = 6"
  "spec_pendingCount (stages eta_tie_run) = 15"
  "summary eta_tie_run = None"
  "\<not> streamError eta_tie_run"
  by code_simp+

lemma to_double_small:
  assumes "0 \<le> x" and "x \<le> 2 ^ 52"
  shows "to_double x = Fin (round53 x)"
proof -
  have r: "round53 (of_nat (2 ^ 52)) = (of_nat (2 ^ 52) :: rat)"
    by (rule round53_of_nat) simp
  have "(of_nat (2 ^ 52) :: rat) < 2 powi 1024" by simp
  then have "round53 (of_nat (2 ^ 52)) < 2 powi 1024" by (simp only: r)
  moreover have "x \<le> of_nat (2 ^ 52)" using assms(2) by simp
  ultimately show ?thesis
    using assms(1) by (intro to_double_bounded [of x "of_nat (2 ^ 52)"])
qed

lemma exact_durations:
  "map exact_duration ss = map (\<lambda>v. case v of Fin a \<Rightarrow> a | _ \<Rightarrow> 0) (map duration_ms ss)"
  by (simp add: exact_duration_def)

lemma tie_mean: "to_double (49 / 6) = Fin (4597424619607381 / 2 ^ 49)"
proof -
  have "to_double (49 / 6) = Fin (round53 (49 / 6))"
    by (rule to_double_small) simp_all
  moreover have "round53 (49 / 6) = 4597424619607381 / 2 ^ 49"
    using round53_unique [of 3 "49 / 6" 4597424619607381] by simp
  ultimately show ?thesis by simp
qed

lemma tie_product:
  "to_double (4597424619607381 / 2 ^ 49 * 15) = Fin (8620171161763839 / 2 ^ 46)"
proof -
  have "to_double (4597424619607381 / 2 ^ 49 * 15)
          = Fin (round53 (4597424619607381 / 2 ^ 49 * 15))"
    by (rule to_double_small) simp_all
  moreover have "round53 (4597424619607381 / 2 ^ 49 * 15) = 8620171161763839 / 2 ^ 46"
    using round53_unique [of 6 "4597424619607381 / 2 ^ 49 * 15" 8620171161763839] by simp
  ultimately show ?thesis by simp
qed

lemma tie_rounded: "Math_round (Fin (8620171161763839 / 2 ^ 46)) = Fin 122"
proof -
  have "\<lfloor>8620171161763839 / 2 ^ 46 + 1 / 2 :: rat\<rfloor> = 122"
    by (rule floor_unique) simp_all
  then show ?thesis by (simp add: Math_round_def)
qed

lemma eta_tie_double: "double_estimate (stages eta_tie_run) = Some (Fin 122)"
proof -
  let ?ss = "stages eta_tie_run"
  have "double_avgDurationMs ?ss = js_div (Fin 49) (Fin 6)"
    by (simp add: double_avgDurationMs_def eta_tie_facts to_double_numeral)
  also have "\<dots> = to_double (49 / 6)" by simp
  finally have avg: "double_avgDurationMs ?ss = Fin (4597424619607381 / 2 ^ 49)"
    by (simp only: tie_mean)
  have pos: "Fin 0 < Fin (4597424619607381 / 2 ^ 49)"
    by (simp add: less_js_number_def)
  have "js_mul (Fin (4597424619607381 / 2 ^ 49)) (Fin (of_nat 15))
          = to_double (4597424619607381 / 2 ^ 49 * 15)"
    by simp
  then have mul: "js_mul (Fin (4597424619607381 / 2 ^ 49)) (Fin (of_nat 15))
          = Fin (8620171161763839 / 2 ^ 46)"
    by (simp only: tie_product)
  show ?thesis
    unfolding double_estimate_def avg eta_tie_facts(3) mul tie_rounded
    using pos by simp
qed

lemma eta_tie_exact: "spec_estimate (stages eta_tie_run) = Some 123"
proof -
  let ?ss = "stages eta_tie_run"
  have "map exact_duration (filter is_done ?ss) = [9, 8, 8, 8, 8, 8]"
    by (simp add: exact_durations eta_tie_facts)
  then have avg: "spec_avgDurationMs ?ss = 49 / 6"
    by (simp add: spec_avgDurationMs_def eta_tie_facts)
  have "\<lfloor>49 / 6 * of_nat 15 + 1 / 2 :: rat\<rfloor> = 123"
    by (rule floor_unique) simp_all
  then have "round (49 / 6 * of_nat 15 :: rat) = 123"
    by (simp only: round_def)
  then show ?thesis
    unfolding spec_estimate_def avg eta_tie_facts(3) by simp
qed

text \<open>
  Claim C5 as stated fails, the formula being read as exact arithmetic: six done stages
  that took 9, 8, 8, 8, 8 and 8 ms and fifteen pending stages give the exact product
  49/6 * 15 = 122.5, which rounds to 123, while the double nearest to 49/6 times 15 is
  the double just below 122.5, and the component computes and shows 122.
\<close>

theorem eta_double_rounding_counterexample:
  "doneCount (stages eta_tie_run) = 6
   \<and> spec_pendingCount (stages eta_tie_run) = 15
   \<and> map duration_ms (filter is_done (stages eta_tie_run))
       = [Fin 9, Fin 8, Fin 8, Fin 8, Fin 8, Fin 8]
   \<and> estimatedRemainingMs (stages eta_tie_run) = Fin 122
   \<and> eta_shown eta_tie_run = Some (Fin 122)
   \<and> spec_estimate (stages eta_tie_run) = Some 123"
proof -
  have e: "estimatedRemainingMs (stages eta_tie_run) = Fin 122"
    by (simp add: estimatedRemainingMs_double eta_tie_double)
  then have "eta_shown eta_tie_run = Some (Fin 122)"
    by (simp add: eta_shown_def eta_tie_facts less_js_number_def)
  with e show ?thesis
    by (simp add: eta_tie_facts eta_tie_exact)
qed

subsection \<open>The two pause paths\<close>

lemma paused_calls_clearTimer: "paused_calls (clearTimer st) = paused_calls st"
  by (simp add: paused_calls_def clearTimer_def split: option.splits)

lemma onPausedGiven_clearTimer: "onPausedGiven (clearTimer st) = onPausedGiven st"
  by (simp add: clearTimer_def split: option.splits)

lemma paused_calls_invoke_onPaused:
  "paused_calls (invoke_onPaused st) = paused_calls st + (if onPausedGiven st then 1 else 0)"
  by (simp add: paused_calls_def invoke_onPaused_def invoke_def)

lemma onPausedGiven_invoke_onPaused: "onPausedGiven (invoke_onPaused st) = onPausedGiven st"
  by (simp add: invoke_onPaused_def invoke_def)

lemma apply_pause_calls:
  "paused_calls (invoke_onPaused (clearTimer st)) = paused_calls st + (if onPausedGiven st then 1 else 0)"
  by (simp add: paused_calls_invoke_onPaused paused_calls_clearTimer onPausedGiven_clearTimer)

lemma apply_pause_given:
  "onPausedGiven (invoke_onPaused (clearTimer st)) = onPausedGiven st"
  by (simp add: onPausedGiven_invoke_onPaused onPausedGiven_clearTimer)

lemma onPausedGiven_step: "onPausedGiven (progress_step a st) = onPausedGiven st"
proof (cases a)
  case (StreamUpdate e d)
  then show ?thesis
    by (simp add: onUpdate_def apply_pause_given Let_def split: option.splits)
next
  case (PauseSettled out)
  then show ?thesis
    by (cases out) (simp_all add: handlePause_settle_def apply_pause_given)
qed (simp_all add: mountEffect_def startAnalysis_def setTimer_def tick_def onComplete_def
       onError_def invoke_def clearTimer_def handlePause_click_def split: option.splits)

lemma onPausedGiven_run: "onPausedGiven (progress_run acts st) = onPausedGiven st"
  by (induction acts arbitrary: st) (simp_all add: onPausedGiven_step)

lemma timers_cleared:
  "set (liveTimers st) \<subseteq> set_option (timerRef st) \<Longrightarrow> liveTimers (clearTimer st) = []"
  by (cases "timerRef st") (auto simp: clearTimer_def filter_empty_conv removeAll_filter_not_eq)

lemma startedRef_apply_pause: "startedRef (invoke_onPaused (clearTimer st)) = startedRef st"
  by (simp add: invoke_onPaused_def invoke_def clearTimer_def split: option.splits)

lemma timerRef_apply_pause: "timerRef (invoke_onPaused (clearTimer st)) = timerRef st"
  by (simp add: invoke_onPaused_def invoke_def clearTimer_def split: option.splits)

lemma liveTimers_apply_pause:
  "liveTimers (invoke_onPaused (clearTimer st)) = liveTimers (clearTimer st)"
  by (simp add: invoke_onPaused_def invoke_def)

lemma liveTimers_clearTimer_subset: "set (liveTimers (clearTimer st)) \<subseteq> set (liveTimers st)"
  by (auto simp: clearTimer_def split: option.splits)

lemma timers_step:
  assumes "startedRef st" and "set (liveTimers st) \<subseteq> set_option (timerRef st)"
  shows "startedRef (progress_step a st)
         \<and> set (liveTimers (progress_step a st)) \<subseteq> set_option (timerRef (progress_step a st))"
proof (cases a)
  case (StreamUpdate e d)
  show ?thesis
  proof (cases "e = ''paused''")
    case True
    with assms StreamUpdate show ?thesis
      using liveTimers_clearTimer_subset [of st]
      by (simp add: onUpdate_def startedRef_apply_pause timerRef_apply_pause liveTimers_apply_pause)
  next
    case False
    with assms StreamUpdate show ?thesis
      by (simp add: onUpdate_def Let_def split: option.splits)
  qed
next
  case (PauseSettled out)
  with assms show ?thesis
    using liveTimers_clearTimer_subset [of "st\<lparr>pauseInFlight := pauseInFlight st - 1\<rparr>"]
    by (cases out)
      (auto simp: handlePause_settle_def startedRef_apply_pause timerRef_apply_pause
         liveTimers_apply_pause)
next
  case (StreamComplete r)
  with assms show ?thesis
    using liveTimers_clearTimer_subset [of "st\<lparr>summary := Some r\<rparr>"]
    by (auto simp: onComplete_def invoke_def clearTimer_def split: option.splits)
next
  case StreamError
  with assms show ?thesis
    by (auto simp: onError_def invoke_def clearTimer_def split: option.splits)
qed (use assms in \<open>simp_all add: mountEffect_def tick_def handlePause_click_def\<close>)

lemma timers_run:
  "startedRef st \<Longrightarrow> set (liveTimers st) \<subseteq> set_option (timerRef st) \<Longrightarrow>
     startedRef (progress_run acts st)
     \<and> set (liveTimers (progress_run acts st)) \<subseteq> set_option (timerRef (progress_run acts st))"
proof (induction acts arbitrary: st)
  case Nil
  then show ?case by simp
next
  case (Cons a acts)
  from timers_step [OF Cons.prems, of a] Cons.IH [of "progress_step a st"]
  show ?case by simp
qed

lemma timers_after_mount:
  "startedRef (progress_step (Mount now) (mounted g))
   \<and> set (liveTimers (progress_step (Mount now) (mounted g)))
       \<subseteq> set_option (timerRef (progress_step (Mount now) (mounted g)))"
  by (simp add: mountEffect_def startAnalysis_def setTimer_def mounted_def)

lemma clearTimer_stopped: "liveTimers st = [] \<Longrightarrow> liveTimers (clearTimer st) = []"
  by (simp add: clearTimer_def split: option.splits)

lemma startedRef_clearTimer: "startedRef (clearTimer st) = startedRef st"
  by (simp add: clearTimer_def split: option.splits)

lemma stopped_step:
  assumes "startedRef st" and "liveTimers st = []"
  shows "startedRef (progress_step a st) \<and> liveTimers (progress_step a st) = []"
proof (cases a)
  case (StreamUpdate e d)
  with assms show ?thesis
    by (simp add: onUpdate_def startedRef_apply_pause liveTimers_apply_pause clearTimer_stopped
          Let_def split: option.splits)
next
  case (PauseSettled out)
  with assms show ?thesis
    by (cases out)
      (simp_all add: handlePause_settle_def startedRef_apply_pause liveTimers_apply_pause
         clearTimer_stopped)
next
  case (StreamComplete r)
  with assms show ?thesis
    by (simp add: onComplete_def invoke_def clearTimer_stopped startedRef_clearTimer)
next
  case StreamError
  with assms show ?thesis
    by (simp add: onError_def invoke_def clearTimer_stopped startedRef_clearTimer)
qed (use assms in \<open>simp_all add: mountEffect_def tick_def handlePause_click_def\<close>)

lemma stopped_run:
  "startedRef st \<Longrightarrow> liveTimers st = [] \<Longrightarrow> ticker_stopped (progress_run acts st)"
proof (induction acts arbitrary: st)
  case Nil
  then show ?case by (simp add: ticker_stopped_def)
next
  case (Cons a acts)
  from stopped_step [OF Cons.prems, of a] Cons.IH [of "progress_step a st"]
  show ?case by simp
qed

lemma paused_event_step:
  "progress_step (StreamUpdate ''paused'' d) st = invoke_onPaused (clearTimer st)"
  by (simp add: onUpdate_def)

lemma accepted_step:
  "0 < pauseInFlight st \<Longrightarrow>
     progress_step (PauseSettled Accepted) st
       = invoke_onPaused (clearTimer (st\<lparr>pauseInFlight := pauseInFlight st - 1\<rparr>))"
  by (simp add: handlePause_settle_def)

lemma pauseInFlight_apply_pause:
  "pauseInFlight (invoke_onPaused (clearTimer st)) = pauseInFlight st"
  by (simp add: invoke_onPaused_def invoke_def clearTimer_def split: option.splits)

text \<open>
  Claim C1, as the code has it. Take a run of a mounted component that was given the pause
  callback, with a pause request in flight. Each pause path, the accepted request and the
  paused stream event, stops the ticker and invokes the callback once, wherever it
  arrives: neither path looks at whether the other has already fired. So the ticker is
  stopped as soon as the first of them has arrived, and when both have arrived, in either
  order, the callback has been invoked twice. The ticker then stays stopped whatever the
  component does next (\<open>rest\<close>): only \<open>startAnalysis\<close> creates an interval, and the
  component runs it in its mount effect alone, once; it has no retry of its own.
\<close>

theorem pause_paths_each_fire:
  assumes reach: "st = progress_run (Mount now # acts) (mounted True)"
    and inflight: "0 < pauseInFlight st"
  shows "paused_calls (progress_step (PauseSettled Accepted) st) = paused_calls st + 1
       \<and> paused_calls (progress_step (StreamUpdate ''paused'' d) st) = paused_calls st + 1
       \<and> paused_calls (progress_run [PauseSettled Accepted, StreamUpdate ''paused'' d] st)
            = paused_calls st + 2
       \<and> paused_calls (progress_run [StreamUpdate ''paused'' d, PauseSettled Accepted] st)
            = paused_calls st + 2
       \<and> ticker_stopped (progress_step (PauseSettled Accepted) st)
       \<and> ticker_stopped (progress_step (StreamUpdate ''paused'' d) st)
       \<and> ticker_stopped (progress_run (PauseSettled Accepted # rest) st)
       \<and> ticker_stopped (progress_run (StreamUpdate ''paused'' d # rest) st)
       \<and> ticker_stopped (progress_run ([PauseSettled Accepted, StreamUpdate ''paused'' d] @ rest) st)
       \<and> ticker_stopped (progress_run ([StreamUpdate ''paused'' d, PauseSettled Accepted] @ rest) st)"
proof -
  let ?acc = "progress_step (PauseSettled Accepted) st"
  let ?ev = "progress_step (StreamUpdate ''paused'' d) st"
  have given: "onPausedGiven st"
    using onPausedGiven_run [of "Mount now # acts" "mounted True"]
    unfolding reach by (simp add: mounted_def)
  have inv: "startedRef st" "set (liveTimers st) \<subseteq> set_option (timerRef st)"
    using timers_run [of "progress_step (Mount now) (mounted True)" acts]
      timers_after_mount [of now True]
    unfolding reach by simp_all
  have acc: "?acc = invoke_onPaused (clearTimer (st\<lparr>pauseInFlight := pauseInFlight st - 1\<rparr>))"
    using inflight by (rule accepted_step)
  have ev: "?ev = invoke_onPaused (clearTimer st)"
    by (rule paused_event_step)
  have 1: "paused_calls ?acc = paused_calls st + 1"
    unfolding acc apply_pause_calls using given by (simp add: paused_calls_def)
  have 2: "paused_calls ?ev = paused_calls st + 1"
    unfolding ev apply_pause_calls using given by simp
  have given': "onPausedGiven ?acc" "onPausedGiven ?ev"
    unfolding onPausedGiven_step by (rule given)+
  have 3: "paused_calls (progress_step (StreamUpdate ''paused'' d) ?acc) = paused_calls st + 2"
    unfolding paused_event_step apply_pause_calls using given'(1) 1 by simp
  have "0 < pauseInFlight ?ev"
    unfolding ev pauseInFlight_apply_pause by (rule inflight)
  from accepted_step [OF this]
  have "paused_calls (progress_step (PauseSettled Accepted) ?ev)
          = paused_calls (?ev\<lparr>pauseInFlight := pauseInFlight ?ev - 1\<rparr>) + 1"
    using given'(2) by (simp only: apply_pause_calls) simp
  then have 4: "paused_calls (progress_step (PauseSettled Accepted) ?ev) = paused_calls st + 2"
    using 2 by (simp add: paused_calls_def)
  have sa: "startedRef ?acc" "liveTimers ?acc = []"
    unfolding acc startedRef_apply_pause liveTimers_apply_pause
    using inv by (simp_all add: timers_cleared)
  have se: "startedRef ?ev" "liveTimers ?ev = []"
    unfolding ev startedRef_apply_pause liveTimers_apply_pause
    using inv by (simp_all add: timers_cleared)
  have 5: "ticker_stopped (progress_run (StreamUpdate ''paused'' d # rest) ?acc)"
    using sa by (rule stopped_run)
  have 6: "ticker_stopped (progress_run (PauseSettled Accepted # rest) ?ev)"
    using se by (rule stopped_run)
  have 7: "ticker_stopped ?acc" "ticker_stopped ?ev"
    using sa(2) se(2) by (simp_all only: ticker_stopped_def)
  have 8: "ticker_stopped (progress_run rest ?acc)" "ticker_stopped (progress_run rest ?ev)"
    using sa se by (auto intro: stopped_run)
  from 1 2 3 4 5 6 7 8 show ?thesis by simp
qed

text \<open>
  Claim C1 as stated fails: the request is accepted, then the paused event arrives, and
  the callback has been invoked twice, not once.
\<close>

theorem pause_callback_twice_counterexample:
  "paused_calls (progress_run pause_race (mounted True)) = 2"
  by (simp add: pause_race_def mounted_def mountEffect_def startAnalysis_def setTimer_def
        onUpdate_def stage_ev_def stage_of_def snapshot_of_def upsert_def or_else_def or_zero_def
        handlePause_click_def handlePause_settle_def clearTimer_def invoke_onPaused_def
        invoke_def paused_calls_def Let_def)

lemma pause_pending_eq:
  "pause_pending =
     \<lparr>stages = [\<lparr>name = ''A'', label = ''A'', status = ''running'', message = [], duration_ms = Fin 0\<rparr>],
      summary = None, progress = None, elapsedMs = 0, isPausing = True, startTime = 0,
      timerRef = Some 1, liveTimers = [1], nextTimer = 2, startedRef = True,
      pauseInFlight = 1, calls = [], onPausedGiven = True, streamError = False\<rparr>"
  by (simp add: pause_pending_def mounted_def mountEffect_def startAnalysis_def setTimer_def
        onUpdate_def stage_ev_def stage_of_def snapshot_of_def upsert_def or_else_def or_zero_def
        handlePause_click_def Let_def)

theorem pause_paths_each_fire_witness:
  "0 < pauseInFlight pause_pending
   \<and> \<not> ticker_stopped pause_pending
   \<and> ticker_stopped (progress_step (PauseSettled Accepted) pause_pending)
   \<and> ticker_stopped (progress_step (StreamUpdate ''paused'' paused_ev) pause_pending)
   \<and> paused_calls pause_pending = 0
   \<and> paused_calls (progress_run [StreamUpdate ''paused'' paused_ev, PauseSettled Accepted]
         pause_pending) = 2
   \<and> ticker_stopped (progress_run [StreamUpdate ''paused'' paused_ev, PauseSettled Accepted,
         Tick 1 500] pause_pending)"
proof -
  have r: "pause_pending = progress_run
      (Mount 0 # [StreamUpdate ''stage'' (stage_ev ''A'' ''running'' 0), PauseClick]) (mounted True)"
    by (simp only: pause_pending_def)
  have f: "0 < pauseInFlight pause_pending"
    by (simp add: pause_pending_eq)
  have z: "paused_calls pause_pending = 0"
    by (simp add: pause_pending_eq paused_calls_def)
  have t: "\<not> ticker_stopped pause_pending"
    by (simp add: pause_pending_eq ticker_stopped_def)
  from pause_paths_each_fire [OF r f, of paused_ev "[Tick 1 500]"] z f t
  show ?thesis by simp
qed

text \<open>
  Claim C10. A pause request that settles with a falsy \<open>success\<close> does what a failed
  request does: it clears the pausing flag and nothing else, so the ticker keeps running,
  no callback is invoked, and the next click sends a new request.
\<close>

theorem declined_pause_recovers:
  "handlePause_settle Declined st = handlePause_settle Failed st
   \<and> handlePause_settle Declined st = st\<lparr>isPausing := False\<rparr>
   \<and> \<not> isPausing (handlePause_settle Declined st)
   \<and> liveTimers (handlePause_settle Declined st) = liveTimers st
   \<and> calls (handlePause_settle Declined st) = calls st
   \<and> pauseInFlight (handlePause_click (handlePause_settle Declined st))
        = Suc (pauseInFlight st)"
  by (simp add: handlePause_settle_def handlePause_click_def)

theorem declined_pause_recovers_witness:
  "isPausing pause_pending
   \<and> \<not> isPausing (handlePause_settle Declined pause_pending)
   \<and> liveTimers (handlePause_settle Declined pause_pending) = [1]
   \<and> calls (handlePause_settle Failed pause_pending) = []
   \<and> \<not> ticker_stopped (handlePause_settle Failed pause_pending)"
proof -
  have "liveTimers pause_pending = [1]" "calls pause_pending = []" "isPausing pause_pending"
    by (simp_all add: pause_pending_eq)
  note facts = this
  note t = declined_pause_recovers [of pause_pending]
  from t have e: "handlePause_settle Failed pause_pending = handlePause_settle Declined pause_pending"
    by simp
  from t facts show ?thesis
    unfolding e ticker_stopped_def by simp
qed

section \<open>Properties of the chat session\<close>

subsection \<open>The tracked index is the last turn\<close>

lemma setMessages_at_in_range:
  assumes "0 \<le> idx" and "idx < int (length (messages st))"
  shows "setMessages_at idx f st
           = Some (st\<lparr>messages := (messages st)[nat idx := f (messages st ! nat idx)]\<rparr>)"
  using assms by (simp add: setMessages_at_def assign_at_def)

lemma chat_onError_in_range:
  assumes "0 \<le> assistantIdxRef st" and "assistantIdxRef st < int (length (messages st))"
  shows "chat_onError err st
           = Some (st\<lparr>messages := (messages st)[nat (assistantIdxRef st) := error_turn err]\<rparr>)"
  using assms by (simp add: chat_onError_def Let_def setMessages_at_in_range)

lemma sendMessage_inv:
  "assistantIdxRef st = int (length (messages st)) - 1 \<Longrightarrow>
     assistantIdxRef (sendMessage c st) = int (length (messages (sendMessage c st))) - 1"
  by (simp add: sendMessage_def hook_start_def Let_def)

lemma chat_step_inv:
  assumes inv: "assistantIdxRef st = int (length (messages st)) - 1"
  shows "\<exists>st'. chat_step a st = Some st'
           \<and> assistantIdxRef st' = int (length (messages st')) - 1"
proof (cases a)
  case (Send c)
  then show ?thesis
    using sendMessage_inv [OF inv, of c] by simp
next
  case (Update e d)
  then show ?thesis
    using inv
    by (cases "assistantIdxRef st < 0")
      (simp_all add: chat_onUpdate_def Let_def setMessages_at_in_range)
next
  case (Complete res)
  then show ?thesis
    using inv
    by (cases "assistantIdxRef st < 0")
      (simp_all add: chat_onComplete_def Let_def setMessages_at_in_range hook_ended_def)
next
  case (Error e)
  then show ?thesis
    using inv
    by (cases "assistantIdxRef st < 0")
      (simp_all add: chat_onError_def Let_def setMessages_at_in_range hook_ended_def)
next
  case Cancel
  then show ?thesis
    using inv by (simp add: hook_ended_def)
next
  case Render
  then show ?thesis
    using inv by (simp add: render_def)
qed

lemma chat_run_inv:
  "assistantIdxRef st = int (length (messages st)) - 1 \<Longrightarrow>
     \<exists>st'. chat_run acts st = Some st' \<and> assistantIdxRef st' = int (length (messages st')) - 1"
proof (induction acts arbitrary: st)
  case Nil
  then show ?case by simp
next
  case (Cons a acts)
  from chat_step_inv [OF Cons.prems, of a] obtain st1 where
    s: "chat_step a st = Some st1" "assistantIdxRef st1 = int (length (messages st1)) - 1"
    by blast
  from Cons.IH [OF s(2)] s(1) show ?case by simp
qed

lemma chat_run_defined: "\<exists>st. chat_run acts chat_init = Some st"
  using chat_run_inv [of chat_init acts] by (auto simp: chat_init_def)

lemma chat_reachable_idx:
  "chat_run acts chat_init = Some st \<Longrightarrow> assistantIdxRef st = int (length (messages st)) - 1"
  using chat_run_inv [of chat_init acts] by (auto simp: chat_init_def)

lemma sent_hi_eq:
  "sent_hi =
     \<lparr>messages = [user_turn ''hi'', placeholder], conversationId = None, assistantIdxRef = 1,
      conversationIdRef = None, isStreaming = False, hook_streaming = True,
      started = [(''hi'', None)]\<rparr>"
  by (simp add: sent_hi_def sendMessage_def chat_init_def hook_start_def Let_def)

subsection \<open>Sending while a stream is active\<close>

lemma sent_hi_rendered_eq:
  "sent_hi_rendered =
     \<lparr>messages = [user_turn ''hi'', placeholder], conversationId = None, assistantIdxRef = 1,
      conversationIdRef = None, isStreaming = True, hook_streaming = True,
      started = [(''hi'', None)]\<rparr>"
  by (simp add: sent_hi_rendered_def sendMessage_def chat_init_def hook_start_def render_def
        Let_def)

lemma sendMessage_guard:
  "isStreaming st \<Longrightarrow> sendMessage c st = st"
  by (simp add: sendMessage_def)

lemma sendMessage_after_render:
  "chat_run [Send ''hi'', Render, Send ''again''] chat_init = Some sent_hi_rendered"
  by (simp add: sent_hi_rendered_def sendMessage_def chat_init_def hook_start_def render_def
        Let_def)

text \<open>
  Claim C4. The guard of \<open>sendMessage\<close> reads \<open>state.isStreaming\<close> as the render that
  built the callback saw it. Once the component has rendered with the stream active, a
  call does nothing (\<open>sendMessage_guard\<close>, \<open>sendMessage_after_render\<close>). A second call
  from the same render as the first still reads \<open>false\<close>, although the first call has
  started a stream: it appends a second user turn and a second placeholder, moves the
  tracked index to the new placeholder and hands a second request to \<open>start\<close>. The
  transcript then has four turns where the claim says two.
\<close>

theorem sendMessage_twice_in_one_render:
  "chat_run [Send ''hi''] chat_init = Some sent_hi
   \<and> hook_streaming sent_hi
   \<and> length (messages sent_hi) = 2
   \<and> chat_run [Send ''hi'', Send ''again''] chat_init =
       Some \<lparr>messages = [user_turn ''hi'', placeholder, user_turn ''again'', placeholder],
             conversationId = None, assistantIdxRef = 3, conversationIdRef = None,
             isStreaming = False, hook_streaming = True,
             started = [(''hi'', None), (''again'', None)]\<rparr>"
  by (simp add: sent_hi_def sendMessage_def chat_init_def hook_start_def Let_def)

subsection \<open>An error during a turn\<close>

text \<open>
  Claim C7. In any state a run of the session can reach after a message was sent, the
  error handler writes the error turn (assistant, \<open>"Error: "\<close> followed by the message,
  flagged as an error, no status) at the tracked index, which is the last turn. The
  transcript keeps its length, every other turn, the user turn before it included, is
  unchanged, and so are the conversation id and the tracked index.
\<close>

theorem error_replaces_placeholder_only:
  assumes "chat_run acts chat_init = Some st" and "0 \<le> assistantIdxRef st"
  shows "\<exists>st'. chat_onError err st = Some st'
           \<and> messages st' ! nat (assistantIdxRef st)
                = \<lparr>role = Assistant, content = ''Error: '' @ err, citations = None,
                   confidence = None, turn_status = None, isError = Some True\<rparr>
           \<and> length (messages st') = length (messages st)
           \<and> (\<forall>i < length (messages st). i \<noteq> nat (assistantIdxRef st) \<longrightarrow>
                 messages st' ! i = messages st ! i)
           \<and> nat (assistantIdxRef st) = length (messages st) - 1
           \<and> conversationId st' = conversationId st
           \<and> assistantIdxRef st' = assistantIdxRef st"
proof -
  have idx: "assistantIdxRef st = int (length (messages st)) - 1"
    using assms(1) by (rule chat_reachable_idx)
  with assms(2) have r: "assistantIdxRef st < int (length (messages st))" by simp
  let ?st' = "st\<lparr>messages := (messages st)[nat (assistantIdxRef st) := error_turn err]\<rparr>"
  have "chat_onError err st = Some ?st'"
    using assms(2) r by (rule chat_onError_in_range)
  moreover have "messages ?st' ! nat (assistantIdxRef st) = error_turn err"
    using assms(2) r by simp
  moreover have "nat (assistantIdxRef st) = length (messages st) - 1"
    using idx by simp
  ultimately show ?thesis
    by (simp add: error_turn_def)
qed

theorem error_replaces_placeholder_only_witness:
  "chat_run [Send ''hi''] chat_init = Some sent_hi
   \<and> 0 \<le> assistantIdxRef sent_hi
   \<and> (\<exists>st'. chat_onError ''boom'' sent_hi = Some st'
          \<and> messages st' ! 1
               = \<lparr>role = Assistant, content = ''Error: boom'', citations = None,
                  confidence = None, turn_status = None, isError = Some True\<rparr>
          \<and> messages st' ! 0 = user_turn ''hi''
          \<and> length (messages st') = 2)"
proof -
  have r: "chat_run [Send ''hi''] chat_init = Some sent_hi"
    by (simp add: sent_hi_def)
  have i: "0 \<le> assistantIdxRef sent_hi"
    by (simp add: sent_hi_eq)
  from error_replaces_placeholder_only [OF r i, of "''boom''"] obtain st' where
    e: "chat_onError ''boom'' sent_hi = Some st'"
    and m: "messages st' ! nat (assistantIdxRef sent_hi)
              = \<lparr>role = Assistant, content = ''Error: '' @ ''boom'', citations = None,
                 confidence = None, turn_status = None, isError = Some True\<rparr>"
    and l: "length (messages st') = length (messages sent_hi)"
    and k: "\<forall>i < length (messages sent_hi). i \<noteq> nat (assistantIdxRef sent_hi) \<longrightarrow>
              messages st' ! i = messages sent_hi ! i"
    by blast
  from m have m': "messages st' ! 1
       = \<lparr>role = Assistant, content = ''Error: boom'', citations = None,
          confidence = None, turn_status = None, isError = Some True\<rparr>"
    by (simp add: sent_hi_eq)
  from l have l': "length (messages st') = 2"
    by (simp add: sent_hi_eq)
  from k have k': "messages st' ! 0 = user_turn ''hi''"
    by (simp add: sent_hi_eq)
  from r i e m' k' l' show ?thesis by blast
qed

subsection \<open>Events before the first message\<close>

text \<open>
  Claim C8. While the tracked index is negative, that is before any \<open>sendMessage\<close> has
  created a placeholder, the update, complete and error handlers return the state
  unchanged: neither the transcript nor the conversation id is touched.
\<close>

theorem handlers_return_before_first_send:
  "assistantIdxRef st < 0 \<Longrightarrow>
     chat_onUpdate event d st = Some st
     \<and> chat_onComplete result st = Some st
     \<and> chat_onError err st = Some st"
  by (simp add: chat_onUpdate_def chat_onComplete_def chat_onError_def Let_def)

theorem handlers_return_before_first_send_witness:
  "assistantIdxRef chat_init < 0
   \<and> chat_onUpdate ''thinking'' thinking_ev chat_init = Some chat_init
   \<and> chat_onComplete example_result chat_init = Some chat_init
   \<and> chat_onError ''boom'' chat_init = Some chat_init"
proof -
  have "assistantIdxRef chat_init < 0"
    by (simp add: chat_init_def)
  from this handlers_return_before_first_send [OF this, of "''thinking''" thinking_ev example_result "''boom''"]
  show ?thesis by blast
qed

end
